theory Spec2Isabelle
  imports Main "HOL-Library.Word"
begin

section \<open>Data model of the parallel file reader\<close>

text \<open>
  The source is one C++ class, \<open>ParallelFileReader\<close>, and a \<open>main\<close> that drives it.
  \<open>size_t\<close> is a 64-bit unsigned integer, so every size and offset is a \<open>64 word\<close>:
  addition, subtraction and multiplication wrap, \<open>div\<close> is the unsigned division.
  \<open>ssize_t\<close> values (the result of \<open>::read\<close>) are the same 64 bits read as two's
  complement: \<open>-1\<close> is the all-ones word and the signed comparison is \<open><s\<close>.
\<close>

type_synonym size_t = "64 word"
type_synonym byte = "8 word"

text \<open>The private members of the class. \<open>buffer\<close> is \<open>nullptr\<close> until \<open>read()\<close> allocates it.\<close>

record reader =
  filename :: string
  file_size :: size_t
  buffer :: "byte list option"
  num_threads :: size_t
  read_chunk_size :: size_t
  block_size :: size_t
  use_odirect :: bool

text \<open>
  Everything that ends a computation abnormally: a C++ exception (\<open>RuntimeError\<close> with
  its message, \<open>BadAlloc\<close>), or undefined behaviour of the machine (an integer division
  by zero, a memory access outside the allocated object or through \<open>nullptr\<close>).
\<close>

datatype error = RuntimeError string | BadAlloc | DivByZero | OutOfBounds | NullPointer

subsection \<open>The operating system, as far as one worker sees it\<close>

text \<open>
  What the kernel answers to one worker on its own file handle: whether \<open>open\<close> and
  \<open>posix_memalign\<close> succeed, the uninitialised content of the scratch buffer, whether
  \<open>lseek\<close> to an offset succeeds, and what a \<open>read\<close> of \<open>count\<close> bytes at a file
  position retrieves.
\<close>

datatype read_result = ReadFail | ReadData "byte list"

record worker_io =
  open_ok :: bool
  memalign_ok :: bool
  scratch_init :: "nat \<Rightarrow> byte"
  lseek_ok :: "size_t \<Rightarrow> bool"
  read_at :: "size_t \<Rightarrow> size_t \<Rightarrow> read_result"

text \<open>
  \<open>::read(fd, p, count)\<close> after \<open>lseek(fd, pos, SEEK_SET)\<close>: the return value and the
  bytes stored at \<open>p\<close>. The kernel never stores more than \<open>count\<close> bytes; a failure
  returns \<open>-1\<close> and stores nothing.
\<close>

definition sys_read :: "worker_io \<Rightarrow> size_t \<Rightarrow> size_t \<Rightarrow> size_t \<times> byte list" where
  "sys_read io pos count =
     (case read_at io pos count of
        ReadFail \<Rightarrow> (- 1, [])
      | ReadData d \<Rightarrow> (of_nat (length (take (unat count) d)), take (unat count) d))"

text \<open>A file of fixed content on which every call succeeds and no read is short before the end of the file.\<close>

definition ideal_io :: "byte list \<Rightarrow> worker_io" where
  "ideal_io content =
     \<lparr> open_ok = True, memalign_ok = True, scratch_init = (\<lambda>_. 0),
       lseek_ok = (\<lambda>_. True),
       read_at = (\<lambda>pos count. ReadData (take (unat count) (drop (unat pos) content))) \<rparr>"

subsection \<open>Memory\<close>

text \<open>
  Storing \<open>data\<close> into a buffer at byte offset \<open>off\<close> (\<open>memcpy\<close>, \<open>memset\<close>, or the
  kernel filling a read buffer). A store that leaves the buffer is undefined behaviour.
\<close>

definition store :: "byte list \<Rightarrow> nat \<Rightarrow> byte list \<Rightarrow> error + byte list" where
  "store b off data =
     (if off + length data \<le> length b
      then Inr (take off b @ data @ drop (off + length data) b)
      else Inl OutOfBounds)"

section \<open>The worker: \<open>readChunk\<close>\<close>

text \<open>Why a read loop was left.\<close>

datatype stop =
    Done
  | SeekError size_t
  | ReadError size_t
  | ShortRead size_t
  | Eof
  | OpenFailed
  | TempAllocFailed

text \<open>
  The local variables of a read loop together with the memory it writes: the bytes
  counter (\<open>bytes_processed\<close> or \<open>bytes_read\<close>), \<open>current_offset\<close>, the destination
  buffer, the scratch buffer \<open>temp_buffer\<close>, and the list of the \<open>(offset, length)\<close>
  pairs of the reads issued so far.
\<close>

record loop_state =
  bytes_done :: size_t
  current_offset :: size_t
  dest :: "byte list"
  temp_buffer :: "nat \<Rightarrow> byte"
  issued :: "(size_t \<times> size_t) list"

datatype step_result = Break stop loop_state | Continue loop_state

text \<open>One iteration of the \<open>O_DIRECT\<close> loop (source lines 64 to 99).\<close>

definition aligned_step :: "reader \<Rightarrow> worker_io \<Rightarrow> size_t \<Rightarrow> loop_state \<Rightarrow> error + step_result" where
  "aligned_step r io section_size s =
     (if block_size r = 0 then Inl DivByZero
      else
        let aligned_offset = (current_offset s div block_size r) * block_size r;
            offset_in_block = current_offset s - aligned_offset;
            remaining_in_section = section_size - bytes_done s;
            bytes_to_read0 = min (read_chunk_size r) (remaining_in_section + offset_in_block);
            bytes_to_read = ((bytes_to_read0 + block_size r - 1) div block_size r) * block_size r
        in
          if \<not> lseek_ok io aligned_offset then Inr (Break (SeekError aligned_offset) s)
          else
            let (actually_read, data) = sys_read io aligned_offset bytes_to_read;
                s1 = s\<lparr>issued := issued s @ [(aligned_offset, bytes_to_read)]\<rparr>
            in
              if actually_read = - 1 then Inr (Break (ReadError aligned_offset) s1)
              else if unat (read_chunk_size r) < length data then Inl OutOfBounds
              else
                let temp = (\<lambda>i. if i < length data then data ! i else temp_buffer s i);
                    bytes_to_copy = min (actually_read - offset_in_block) remaining_in_section
                in
                  if unat (read_chunk_size r) < unat offset_in_block + unat bytes_to_copy
                  then Inl OutOfBounds
                  else
                    (case store (dest s) (unat (current_offset s))
                            (map temp [unat offset_in_block ..< unat offset_in_block + unat bytes_to_copy]) of
                       Inl e \<Rightarrow> Inl e
                     | Inr b \<Rightarrow>
                         let s2 = s1\<lparr>bytes_done := bytes_done s + bytes_to_copy,
                                     current_offset := current_offset s + bytes_to_copy,
                                     dest := b, temp_buffer := temp\<rparr>
                         in if actually_read <s bytes_to_read then Inr (Break Eof s2)
                            else Inr (Continue s2)))"

text \<open>One iteration of the regular loop (source lines 111 to 142).\<close>

definition buffered_step :: "reader \<Rightarrow> worker_io \<Rightarrow> size_t \<Rightarrow> loop_state \<Rightarrow> error + step_result" where
  "buffered_step r io section_size s =
     (let bytes_to_read = min (read_chunk_size r) (section_size - bytes_done s)
      in
        if \<not> lseek_ok io (current_offset s) then Inr (Break (SeekError (current_offset s)) s)
        else
          let (actually_read, data) = sys_read io (current_offset s) bytes_to_read;
              s1 = s\<lparr>issued := issued s @ [(current_offset s, bytes_to_read)]\<rparr>
          in
            if actually_read = - 1 then Inr (Break (ReadError (current_offset s)) s1)
            else
              (case store (dest s) (unat (current_offset s)) data of
                 Inl e \<Rightarrow> Inl e
               | Inr b \<Rightarrow>
                   let s2 = s1\<lparr>bytes_done := bytes_done s + actually_read,
                               current_offset := current_offset s + actually_read,
                               dest := b\<rparr>
                   in if actually_read <s bytes_to_read \<and> 0 <s actually_read
                      then Inr (Break (ShortRead (current_offset s2)) s2)
                      else if actually_read = 0 then Inr (Break Eof s2)
                      else Inr (Continue s2)))"

text \<open>
  The two \<open>while\<close> loops have the same shape: the test \<open>bytes < section_size\<close>, a
  body that either leaves the loop by \<open>break\<close> or goes round again. Nothing in the
  source bounds the number of iterations, so the loop is partial: \<open>None\<close> is a loop
  that never returns.
\<close>

partial_function (option) while_loop ::
  "(loop_state \<Rightarrow> error + step_result) \<Rightarrow> size_t \<Rightarrow> loop_state \<Rightarrow> (error + stop \<times> loop_state) option" where
  "while_loop body section_size s =
     (if bytes_done s < section_size then
        (case body s of
           Inl e \<Rightarrow> Some (Inl e)
         | Inr (Break why s') \<Rightarrow> Some (Inr (why, s'))
         | Inr (Continue s') \<Rightarrow> while_loop body section_size s')
      else Some (Inr (Done, s)))"

definition aligned_loop ::
  "reader \<Rightarrow> worker_io \<Rightarrow> size_t \<Rightarrow> loop_state \<Rightarrow> (error + stop \<times> loop_state) option" where
  "aligned_loop r io section_size = while_loop (aligned_step r io section_size) section_size"

definition buffered_loop ::
  "reader \<Rightarrow> worker_io \<Rightarrow> size_t \<Rightarrow> loop_state \<Rightarrow> (error + stop \<times> loop_state) option" where
  "buffered_loop r io section_size = while_loop (buffered_step r io section_size) section_size"

text \<open>What a worker reports when it is done, and the reads it issued.\<close>

record report =
  thread_id :: size_t
  bytes_completed :: size_t
  outcome :: stop
  reads :: "(size_t \<times> size_t) list"

text \<open>
  \<open>readChunk\<close>: the worker of one section. It returns its report and the destination
  buffer as it left it.
\<close>

definition readChunk ::
  "reader \<Rightarrow> worker_io \<Rightarrow> byte list \<Rightarrow> size_t \<Rightarrow> size_t \<Rightarrow> size_t
     \<Rightarrow> (error + report \<times> byte list) option" where
  "readChunk r io b tid section_start section_size =
     (if \<not> open_ok io
      then Some (Inr (\<lparr>thread_id = tid, bytes_completed = 0, outcome = OpenFailed, reads = []\<rparr>, b))
      else if use_odirect r \<and> \<not> memalign_ok io
      then Some (Inr (\<lparr>thread_id = tid, bytes_completed = 0, outcome = TempAllocFailed, reads = []\<rparr>, b))
      else
        (case (if use_odirect r then aligned_loop else buffered_loop) r io section_size
                \<lparr>bytes_done = 0, current_offset = section_start, dest = b,
                 temp_buffer = scratch_init io, issued = []\<rparr> of
           None \<Rightarrow> None
         | Some (Inl e) \<Rightarrow> Some (Inl e)
         | Some (Inr (why, s)) \<Rightarrow>
             Some (Inr (\<lparr>thread_id = tid, bytes_completed = bytes_done s, outcome = why,
                         reads = issued s\<rparr>, dest s))))"

section \<open>The engine: constructor, \<open>read\<close>, \<open>verify\<close>\<close>

text \<open>
  The rest of the operating system: what \<open>stat\<close> answers for a file name (\<open>None\<close>
  when it fails, otherwise \<open>st_size\<close>), whether the allocation of the destination buffer
  and of the verification buffer succeed, the uninitialised content of fresh memory,
  the kernel's answers to each worker (by thread index), and, for \<open>verify\<close>, whether
  the \<open>ifstream\<close> opens and the bytes its one \<open>read\<close> retrieves.
\<close>

record system =
  stat_size :: "string \<Rightarrow> size_t option"
  alloc_ok :: bool
  heap_init :: "nat \<Rightarrow> byte"
  worker :: "size_t \<Rightarrow> worker_io"
  ifstream_open :: bool
  verify_alloc_ok :: bool
  ifstream_read :: "byte list"

definition getFileSize :: "system \<Rightarrow> string \<Rightarrow> size_t" where
  "getFileSize sys fname = (case stat_size sys fname of Some st_size \<Rightarrow> st_size | None \<Rightarrow> 0)"

text \<open>The constructor (source lines 159 to 172). \<open>block_size\<close> is initialised to 4096.\<close>

definition new_reader :: "system \<Rightarrow> string \<Rightarrow> size_t \<Rightarrow> size_t \<Rightarrow> bool \<Rightarrow> error + reader" where
  "new_reader sys fname threads chunk_size odirect =
     (let bs = 4096;
          rcs = (if odirect \<and> chunk_size mod bs \<noteq> 0
                 then ((chunk_size + bs - 1) div bs) * bs else chunk_size);
          fs = getFileSize sys fname
      in if fs = 0 then Inl (RuntimeError (''File not found or empty: '' @ fname))
         else Inr \<lparr> filename = fname, file_size = fs, buffer = None, num_threads = threads,
                    read_chunk_size = rcs, block_size = bs, use_odirect = odirect \<rparr>)"

text \<open>
  The \<open>for\<close> loop that hands out the sections (source lines 209 to 226 for the
  zero-fill, 260 to 272 for the read, the same arithmetic): for each thread index
  \<open>i\<close> from \<open>i\<close> up to \<open>num_threads\<close>, the triple of the index, the start offset
  and the length of its section.
\<close>

function spawn_loop ::
  "size_t \<Rightarrow> size_t \<Rightarrow> size_t \<Rightarrow> size_t \<Rightarrow> size_t \<Rightarrow> (size_t \<times> size_t \<times> size_t) list" where
  "spawn_loop nthreads chunk_size remainder i section_offset =
     (if i < nthreads then
        let current_chunk_size = (if i = nthreads - 1 then chunk_size + remainder else chunk_size)
        in (i, section_offset, current_chunk_size)
           # spawn_loop nthreads chunk_size remainder (i + 1) (section_offset + current_chunk_size)
      else [])"
  by pat_completeness auto
termination spawn_loop
  apply (relation "measure (\<lambda>(nthreads, chunk_size, remainder, i, off). unat nthreads - unat i)")
   apply simp
  apply simp
  apply unat_arith
  done

declare spawn_loop.simps [simp del]

text \<open>The sections of a reader; the division is undefined for no threads.\<close>

definition partitions :: "reader \<Rightarrow> error + (size_t \<times> size_t \<times> size_t) list" where
  "partitions r =
     (if num_threads r = 0 then Inl DivByZero
      else
        let chunk_size = file_size r div num_threads r;
            remainder = file_size r mod num_threads r
        in Inr (spawn_loop (num_threads r) chunk_size remainder 0 0))"

text \<open>
  The threads of one phase write regions of the buffer that do not depend on each
  other's results; the model runs them one after the other, in the order they are
  spawned, and the phase is over when the last one is (the \<open>join\<close> loop).
\<close>

fun memset_threads :: "byte list \<Rightarrow> (size_t \<times> size_t \<times> size_t) list \<Rightarrow> error + byte list" where
  "memset_threads b [] = Inr b"
| "memset_threads b ((i, off, len) # ps) =
     (case store b (unat off) (replicate (unat len) 0) of
        Inl e \<Rightarrow> Inl e
      | Inr b' \<Rightarrow> memset_threads b' ps)"

fun read_threads ::
  "reader \<Rightarrow> (size_t \<Rightarrow> worker_io) \<Rightarrow> byte list \<Rightarrow> (size_t \<times> size_t \<times> size_t) list
     \<Rightarrow> (error + byte list \<times> report list) option" where
  "read_threads r w b [] = Some (Inr (b, []))"
| "read_threads r w b ((i, off, len) # ps) =
     (case readChunk r (w i) b i off len of
        None \<Rightarrow> None
      | Some (Inl e) \<Rightarrow> Some (Inl e)
      | Some (Inr (rep, b')) \<Rightarrow>
          (case read_threads r w b' ps of
             None \<Rightarrow> None
           | Some (Inl e) \<Rightarrow> Some (Inl e)
           | Some (Inr (b'', reps)) \<Rightarrow> Some (Inr (b'', rep # reps))))"

text \<open>The buffer after the allocation and the zero-fill phase (source lines 187 to 231).\<close>

definition zero_filled :: "system \<Rightarrow> reader \<Rightarrow> error + byte list" where
  "zero_filled sys r =
     (if \<not> alloc_ok sys
      then Inl (if use_odirect r then RuntimeError ''Failed to allocate aligned buffer'' else BadAlloc)
      else
        (case partitions r of
           Inl e \<Rightarrow> Inl e
         | Inr ps \<Rightarrow> memset_threads (map (heap_init sys) [0 ..< unat (file_size r)]) ps))"

text \<open>\<open>read()\<close>: the reader with its filled buffer, and the reports of the workers.\<close>

definition read :: "system \<Rightarrow> reader \<Rightarrow> (error + reader \<times> report list) option" where
  "read sys r =
     (case zero_filled sys r of
        Inl e \<Rightarrow> Some (Inl e)
      | Inr b \<Rightarrow>
          (case partitions r of
             Inl e \<Rightarrow> Some (Inl e)
           | Inr ps \<Rightarrow>
               (case read_threads r (worker sys) b ps of
                  None \<Rightarrow> None
                | Some (Inl e) \<Rightarrow> Some (Inl e)
                | Some (Inr (b', reps)) \<Rightarrow> Some (Inr (r\<lparr>buffer := Some b'\<rparr>, reps)))))"

text \<open>
  \<open>verify()\<close> (source lines 297 to 322). \<open>memcmp\<close> is only evaluated when the read
  retrieved \<open>file_size\<close> bytes.
\<close>

definition verify :: "system \<Rightarrow> reader \<Rightarrow> error + bool" where
  "verify sys r =
     (if \<not> ifstream_open sys then Inr False
      else if \<not> verify_alloc_ok sys then Inl BadAlloc
      else
        let verify_buffer = take (unat (file_size r)) (ifstream_read sys);
            gcount = (of_nat (length verify_buffer) :: size_t);
            success = (gcount = file_size r)
        in if \<not> success then Inr False
           else
             (case buffer r of
                None \<Rightarrow> Inl NullPointer
              | Some b \<Rightarrow>
                  if length b < unat (file_size r) then Inl OutOfBounds
                  else Inr (take (unat (file_size r)) b = verify_buffer)))"

section \<open>\<open>main\<close>\<close>

text \<open>
  The command line after \<open>std::stoul\<close>: the file name (absent when \<open>argc < 2\<close>) and
  the numbers of the optional arguments that are present.
\<close>

record cmdline =
  arg_filename :: "string option"
  arg_num_threads :: "size_t option"
  arg_chunk_kb :: "size_t option"
  arg_odirect :: "size_t option"

text \<open>The thread count, chunk size and mode that \<open>main\<close> passes to the constructor (source lines 328 to 362).\<close>

definition main_config :: "size_t \<Rightarrow> cmdline \<Rightarrow> size_t \<times> size_t \<times> bool" where
  "main_config hardware_concurrency a =
     (let num_threads0 = (case arg_num_threads a of Some n \<Rightarrow> n | None \<Rightarrow> hardware_concurrency);
          read_chunk_size0 = (case arg_chunk_kb a of Some k \<Rightarrow> k * 1024 | None \<Rightarrow> 1024 * 1024);
          odirect = (case arg_odirect a of Some v \<Rightarrow> v \<noteq> 0 | None \<Rightarrow> False);
          num_threads1 = (if num_threads0 = 0 then 1 else num_threads0);
          read_chunk_size1 = (if read_chunk_size0 = 0 then 1024 * 1024 else read_chunk_size0)
      in (num_threads1, read_chunk_size1, odirect))"

text \<open>An exception reaches the \<open>catch\<close> of \<open>main\<close>; undefined behaviour does not.\<close>

fun is_exception :: "error \<Rightarrow> bool" where
  "is_exception (RuntimeError _) = True"
| "is_exception BadAlloc = True"
| "is_exception _ = False"

text \<open>\<open>ParallelFileReader reader(...); reader.read();\<close> (source lines 364 and 365).\<close>

definition construct_and_read ::
  "system \<Rightarrow> string \<Rightarrow> size_t \<Rightarrow> size_t \<Rightarrow> bool \<Rightarrow> (error + reader \<times> report list) option" where
  "construct_and_read sys fname threads chunk_size odirect =
     (case new_reader sys fname threads chunk_size odirect of
        Inl e \<Rightarrow> Some (Inl e)
      | Inr r \<Rightarrow> read sys r)"

text \<open>
  \<open>main\<close>: the exit code, and the destination buffer if one was allocated.
\<close>

definition main :: "system \<Rightarrow> size_t \<Rightarrow> cmdline \<Rightarrow> (error + int \<times> byte list option) option" where
  "main sys hardware_concurrency a =
     (case arg_filename a of
        None \<Rightarrow> Some (Inr (1, None))
      | Some fname \<Rightarrow>
          (case main_config hardware_concurrency a of (threads, chunk_size, odirect) \<Rightarrow>
             (case construct_and_read sys fname threads chunk_size odirect of
                None \<Rightarrow> None
              | Some (Inl e) \<Rightarrow> Some (if is_exception e then Inr (1, None) else Inl e)
              | Some (Inr (r', reps)) \<Rightarrow>
                  (case verify sys r' of
                     Inl e \<Rightarrow> Some (if is_exception e then Inr (1, buffer r') else Inl e)
                   | Inr ok \<Rightarrow> Some (Inr (0, buffer r'))))))"

section \<open>Example systems\<close>

text \<open>
  A machine on which every call succeeds and the file has the given content for the
  whole run; fresh memory holds the byte \<open>0xAA\<close>.
\<close>

definition ideal_system :: "byte list \<Rightarrow> system" where
  "ideal_system content =
     \<lparr> stat_size = (\<lambda>_. Some (of_nat (length content))),
       alloc_ok = True,
       heap_init = (\<lambda>_. 170),
       worker = (\<lambda>_. ideal_io content),
       ifstream_open = True,
       verify_alloc_ok = True,
       ifstream_read = content \<rparr>"

section \<open>Notions used by the properties\<close>

text \<open>The state an iteration leaves behind, whether it breaks or continues.\<close>

definition state_of :: "step_result \<Rightarrow> loop_state" where
  "state_of x = (case x of Break why s \<Rightarrow> s | Continue s \<Rightarrow> s)"


text \<open>A property of the loop state that every iteration preserves.\<close>

definition preserved :: "(loop_state \<Rightarrow> bool) \<Rightarrow> (loop_state \<Rightarrow> error + step_result) \<Rightarrow> size_t \<Rightarrow> bool" where
  "preserved I body n = (\<forall>s res. bytes_done s < n \<longrightarrow> I s \<longrightarrow> body s = Inr res \<longrightarrow> I (state_of res))"

text \<open>
  A list of sections is contiguous from byte \<open>a\<close> to byte \<open>b\<close>: the first starts at
  \<open>a\<close>, each next one starts where the one before ends, and the last ends at \<open>b\<close>.
\<close>

fun chain :: "nat \<Rightarrow> (size_t \<times> size_t \<times> size_t) list \<Rightarrow> nat \<Rightarrow> bool" where
  "chain a [] b = (a = b)"
| "chain a ((i, off, len) # ps) b = (unat off = a \<and> chain (a + unat len) ps b)"

text \<open>The length of a section.\<close>

definition section_length :: "size_t \<times> size_t \<times> size_t \<Rightarrow> nat" where
  "section_length p = (case p of (i, off, len) \<Rightarrow> unat len)"

text \<open>An invariant that every continuing iteration carries to the next state.\<close>

definition carried :: "(loop_state \<Rightarrow> bool) \<Rightarrow> (loop_state \<Rightarrow> error + step_result) \<Rightarrow> size_t \<Rightarrow> bool" where
  "carried I body n = (\<forall>s t. bytes_done s < n \<longrightarrow> I s \<longrightarrow> body s = Inr (Continue t) \<longrightarrow> I t)"

text \<open>
  How a loop that returned \<open>y\<close> ended: its last iteration started in a state that
  satisfies the invariant and failed or broke, or the loop test failed in such a state.
\<close>

definition last_iteration ::
  "(loop_state \<Rightarrow> bool) \<Rightarrow> (loop_state \<Rightarrow> error + step_result) \<Rightarrow> size_t \<Rightarrow> (error + stop \<times> loop_state) \<Rightarrow> bool" where
  "last_iteration I body n y =
     ((\<exists>e t. y = Inl e \<and> I t \<and> bytes_done t < n \<and> body t = Inl e)
      \<or> (\<exists>why t s'. y = Inr (why, s') \<and> I t \<and> bytes_done t < n \<and> body t = Inr (Break why s'))
      \<or> (\<exists>s'. y = Inr (Done, s') \<and> I s' \<and> \<not> bytes_done s' < n))"

text \<open>
  The frame of a worker on the section that starts at \<open>start\<close>, in a buffer that was
  \<open>b0\<close> when the worker began: the buffer keeps its length, the counter stays within
  the section, \<open>current_offset\<close> is \<open>start\<close> plus the counter, and every byte outside
  \<open>[start, start + counter)\<close> is as it was.
\<close>

definition frame :: "byte list \<Rightarrow> size_t \<Rightarrow> size_t \<Rightarrow> loop_state \<Rightarrow> bool" where
  "frame b0 start n s =
     (length (dest s) = length b0
      \<and> unat (bytes_done s) \<le> unat n
      \<and> unat (current_offset s) = unat start + unat (bytes_done s)
      \<and> (\<forall>j. j < unat start \<or> unat start + unat (bytes_done s) \<le> j \<longrightarrow> dest s ! j = b0 ! j))"

text \<open>
  A worker on the section at \<open>start\<close> has filled the first \<open>bytes_done\<close> bytes of
  its section with the bytes of the file, within its frame.
\<close>

definition filled :: "byte list \<Rightarrow> byte list \<Rightarrow> size_t \<Rightarrow> size_t \<Rightarrow> loop_state \<Rightarrow> bool" where
  "filled content b0 start n s =
     (frame b0 start n s
      \<and> (\<forall>j. unat start \<le> j \<and> j < unat start + unat (bytes_done s) \<longrightarrow> dest s ! j = content ! j))"

text \<open>
  An iteration makes progress on the file: from a state that has filled part of the
  section it continues, or leaves at the end of the section, having filled more.
\<close>

definition progresses ::
  "byte list \<Rightarrow> byte list \<Rightarrow> size_t \<Rightarrow> size_t \<Rightarrow> (loop_state \<Rightarrow> error + step_result) \<Rightarrow> bool" where
  "progresses content b0 start n body =
     (\<forall>s. filled content b0 start n s \<and> bytes_done s < n \<longrightarrow>
        (\<exists>t. (body s = Inr (Continue t) \<or> (body s = Inr (Break Eof t) \<and> bytes_done t = n))
            \<and> filled content b0 start n t \<and> unat (bytes_done s) < unat (bytes_done t)))"

text \<open>The kernel's side of a worker on a file of fixed content: every call succeeds and reads are those of \<open>ideal_io\<close>.\<close>

definition reads_file :: "byte list \<Rightarrow> worker_io \<Rightarrow> bool" where
  "reads_file content io =
     (open_ok io \<and> memalign_ok io \<and> (\<forall>off. lseek_ok io off) \<and> read_at io = read_at (ideal_io content))"

text \<open>The buffer \<open>b\<close> with the bytes of the section \<open>[start, start + n)\<close> replaced by those of the file.\<close>

definition with_section :: "byte list \<Rightarrow> byte list \<Rightarrow> nat \<Rightarrow> nat \<Rightarrow> byte list" where
  "with_section content b start n = take start b @ take n (drop start content) @ drop (start + n) b"

text \<open>
  The configuration that \<open>main\<close> and the constructor establish: a chunk size that is
  not 0 and, in direct-aligned mode, a multiple of a block size that is not 0, below
  \<open>2^63\<close> so that it is a positive \<open>ssize_t\<close>.
\<close>

definition well_configured :: "reader \<Rightarrow> bool" where
  "well_configured r =
     (read_chunk_size r \<noteq> 0
      \<and> (use_odirect r \<longrightarrow>
            block_size r \<noteq> 0 \<and> read_chunk_size r mod block_size r = 0
            \<and> unat (read_chunk_size r) < 2 ^ 63))"

text \<open>A machine on which every call succeeds and the file has the given content for the whole run.\<close>

definition serves_file :: "byte list \<Rightarrow> system \<Rightarrow> bool" where
  "serves_file content sys =
     (alloc_ok sys \<and> (\<forall>i. reads_file content (worker sys i))
      \<and> ifstream_open sys \<and> verify_alloc_ok sys \<and> ifstream_read sys = content)"

text \<open>Every read of a list of issued reads asks for at most \<open>read_chunk_size\<close> bytes, the size of the scratch buffer.\<close>

definition within_chunk :: "reader \<Rightarrow> (size_t \<times> size_t) list \<Rightarrow> bool" where
  "within_chunk r xs = (\<forall>(off, len) \<in> set xs. len \<le> read_chunk_size r)"


section \<open>Word arithmetic\<close>

lemma unat_round_down:
  "unat (((x :: size_t) div b) * b) = (unat x div unat b) * unat b"
proof -
  have "(unat x div unat b) * unat b \<le> unat x" by simp
  also have "unat x < 2 ^ LENGTH(64)" by (rule unsigned_less)
  finally have "unat (x div b) * unat b < 2 ^ LENGTH(64)" by (simp add: unat_div)
  then show ?thesis by (simp add: unat_mult_lem [THEN iffD1] unat_div)
qed

lemma round_down_mod: "((x :: size_t) div b) * b mod b = 0"
  by (simp add: word_unat_eq_iff unat_mod unat_round_down)

lemma round_down_le: "((x :: size_t) div b) * b \<le> x"
  by (simp add: word_le_nat_alt unat_round_down)

section \<open>Reasoning about the loops\<close>

text \<open>Partial correctness: an invariant of the body holds when the loop returns.\<close>

lemma state_of_simps [simp]: "state_of (Break why s) = s" "state_of (Continue s) = s"
  by (simp_all add: state_of_def)

lemma while_loop_preserved: 
  assumes run: "while_loop body n s = Some y"
  shows "preserved I body n \<longrightarrow> I s \<longrightarrow> (\<forall>why s'. y = Inr (why, s') \<longrightarrow> I s')"
proof (rule while_loop.raw_induct [where P = "\<lambda>body n s y. preserved I body n \<longrightarrow> I s \<longrightarrow> (\<forall>why s'. y = Inr (why, s') \<longrightarrow> I s')", rotated])
  show "while_loop body n s = Some y" by (rule run)
next
  fix loop :: "(loop_state \<Rightarrow> error + step_result) \<Rightarrow> size_t \<Rightarrow> loop_state \<Rightarrow> (error + stop \<times> loop_state) option"
  fix body n s y
  assume IH: "\<And>body n s y. loop body n s = Some y \<Longrightarrow>
      preserved I body n \<longrightarrow> I s \<longrightarrow> (\<forall>why s'. y = Inr (why, s') \<longrightarrow> I s')"
  assume unfold: "(if bytes_done s < n
          then case body s of Inl e \<Rightarrow> Some (Inl e)
               | Inr (Break why s') \<Rightarrow> Some (Inr (why, s'))
               | Inr (Continue s') \<Rightarrow> loop body n s'
          else Some (Inr (Done, s))) = Some y"
  show "preserved I body n \<longrightarrow> I s \<longrightarrow> (\<forall>why s'. y = Inr (why, s') \<longrightarrow> I s')"
  proof (intro impI allI)
    fix why s'
    assume st: "preserved I body n"
      and i: "I s" and y: "y = Inr (why, s')"
    show "I s'"
    proof (cases "bytes_done s < n")
      case False
      with unfold y i show ?thesis by simp
    next
      case True
      show ?thesis
      proof (cases "body s")
        case (Inl e)
        with unfold True y show ?thesis by simp
      next
        case (Inr res)
        with st True i have i': "I (state_of res)" unfolding preserved_def by blast
        show ?thesis
        proof (cases res)
          case (Break w t)
          with unfold True Inr y i' show ?thesis by simp
        next
          case (Continue t)
          with unfold True Inr have "loop body n t = Some y" by simp
          from IH [OF this] st i' Continue y show ?thesis by simp
        qed
      qed
    qed
  qed
qed

lemma while_loop_invariant:
  assumes run: "while_loop body n s = Some (Inr (why, s'))"
    and init: "I s"
    and step: "\<And>s res. bytes_done s < n \<Longrightarrow> I s \<Longrightarrow> body s = Inr res \<Longrightarrow> I (state_of res)"
  shows "I s'"
  using while_loop_preserved [OF run, of I] init step unfolding preserved_def by blast

text \<open>Termination: a measure that every continuing iteration decreases.\<close>

lemma while_loop_returns:
  assumes init: "I s"
    and step: "\<And>s t. bytes_done s < n \<Longrightarrow> I s \<Longrightarrow> body s = Inr (Continue t) \<Longrightarrow> I t \<and> m t < (m s :: nat)"
  shows "\<exists>y. while_loop body n s = Some y"
  using init
proof (induction "m s" arbitrary: s rule: less_induct)
  case less
  show ?case
  proof (cases "bytes_done s < n")
    case False
    then show ?thesis by (subst while_loop.simps) simp
  next
    case True
    show ?thesis
    proof (cases "body s")
      case (Inl e)
      with True show ?thesis by (subst while_loop.simps) simp
    next
      case (Inr res)
      show ?thesis
      proof (cases res)
        case (Break w t)
        with True Inr show ?thesis by (subst while_loop.simps) simp
      next
        case (Continue t)
        with step [OF True less.prems] Inr have "I t" "m t < m s" by simp_all
        from less.hyps [OF this(2) this(1)] obtain y where "while_loop body n t = Some y" by blast
        with True Inr Continue show ?thesis by (subst while_loop.simps) simp
      qed
    qed
  qed
qed

section \<open>Construction\<close>

text \<open>
  Claim C9. The constructor throws exactly when \<open>stat\<close> fails on the file or reports
  the size zero. In that case \<open>main\<close> exits with code 1 and has allocated no
  destination buffer. Otherwise the constructor returns a reader whose \<open>file_size\<close>
  is the size that \<open>stat\<close> reported, with no buffer yet, and \<open>read()\<close> leaves
  \<open>file_size\<close> as it is.
\<close>

theorem construction_throws_iff_missing_or_empty:
  "(isl (new_reader sys fname t c od) \<longleftrightarrow> stat_size sys fname = None \<or> stat_size sys fname = Some 0)
   \<and> (isl (new_reader sys fname t c od) \<longrightarrow> arg_filename a = Some fname \<longrightarrow>
          main sys hw a = Some (Inr (1, None)))
   \<and> (\<not> isl (new_reader sys fname t c od) \<longrightarrow>
        (\<exists>r. new_reader sys fname t c od = Inr r \<and> stat_size sys fname = Some (file_size r)
            \<and> buffer r = None
            \<and> (\<forall>r' reps. read sys r = Some (Inr (r', reps)) \<longrightarrow> file_size r' = file_size r)))"
proof (intro conjI impI)
  show iff: "isl (new_reader sys fname t c od) \<longleftrightarrow> stat_size sys fname = None \<or> stat_size sys fname = Some 0"
    by (auto simp: new_reader_def getFileSize_def Let_def split: option.splits)
  show "main sys hw a = Some (Inr (1, None))"
    if "isl (new_reader sys fname t c od)" and "arg_filename a = Some fname"
    using that iff
    by (auto simp: main_def construct_and_read_def new_reader_def getFileSize_def Let_def
             split: option.splits prod.splits)
  show "\<exists>r. new_reader sys fname t c od = Inr r \<and> stat_size sys fname = Some (file_size r)
            \<and> buffer r = None
            \<and> (\<forall>r' reps. read sys r = Some (Inr (r', reps)) \<longrightarrow> file_size r' = file_size r)"
    if "\<not> isl (new_reader sys fname t c od)"
    using that
    by (auto simp: new_reader_def getFileSize_def Let_def read_def
             split: option.splits sum.splits if_splits)
qed

theorem construction_throws_iff_missing_or_empty_witness:
  "isl (new_reader (ideal_system []) ''empty.bin'' 2 1024 False)
   \<and> main (ideal_system []) 8 \<lparr>arg_filename = Some ''empty.bin'', arg_num_threads = None,
        arg_chunk_kb = None, arg_odirect = None\<rparr> = Some (Inr (1, None))
   \<and> isl (new_reader ((ideal_system [1, 2, 3])\<lparr>stat_size := (\<lambda>_. None)\<rparr>) ''gone.bin'' 2 1024 False)
   \<and> \<not> isl (new_reader (ideal_system [1, 2, 3]) ''three.bin'' 2 1024 False)
   \<and> (\<exists>r. new_reader (ideal_system [1, 2, 3]) ''three.bin'' 2 1024 False = Inr r \<and> file_size r = 3
          \<and> buffer r = None)"
  using construction_throws_iff_missing_or_empty
          [of "ideal_system []" "''empty.bin''" 2 1024 False
              "\<lparr>arg_filename = Some ''empty.bin'', arg_num_threads = None,
                arg_chunk_kb = None, arg_odirect = None\<rparr>" 8]
        construction_throws_iff_missing_or_empty
          [of "(ideal_system [1, 2, 3])\<lparr>stat_size := (\<lambda>_. None)\<rparr>" "''gone.bin''" 2 1024 False
              "\<lparr>arg_filename = None, arg_num_threads = None,
                arg_chunk_kb = None, arg_odirect = None\<rparr>" 8]
        construction_throws_iff_missing_or_empty
          [of "ideal_system [1, 2, 3]" "''three.bin''" 2 1024 False
              "\<lparr>arg_filename = None, arg_num_threads = None,
                arg_chunk_kb = None, arg_odirect = None\<rparr>" 8]
  by (auto simp: ideal_system_def)

section \<open>Verification\<close>

lemma of_nat_eq_iff_unat:
  "n \<le> unat (w :: size_t) \<Longrightarrow> (of_nat n = w) = (n = unat w)"
proof -
  assume le: "n \<le> unat w"
  have "unat w < 2 ^ 64" using unsigned_less [of w] by simp
  with le have "n < 2 ^ LENGTH(64)" by simp
  then have "unat (of_nat n :: size_t) = n" by (simp add: unat_of_nat)
  then show ?thesis by auto
qed

text \<open>
  Claim C10. For a reader whose buffer holds \<open>file_size\<close> bytes, \<open>verify()\<close> returns
  true exactly when the sequential read happened (the stream opened, the verification
  buffer was allocated), retrieved \<open>file_size\<close> bytes, and these bytes equal the
  buffer. When the stream does not open, or the read retrieves fewer than \<open>file_size\<close>
  bytes, \<open>verify()\<close> returns false: it neither throws nor touches memory it should not.
\<close>

theorem verify_true_iff_full_read_and_equal:
  "(buffer r = Some b \<and> length b = unat (file_size r) \<longrightarrow>
      (verify sys r = Inr True \<longleftrightarrow>
         ifstream_open sys \<and> verify_alloc_ok sys
         \<and> length (take (unat (file_size r)) (ifstream_read sys)) = unat (file_size r)
         \<and> take (unat (file_size r)) (ifstream_read sys) = b))
   \<and> (\<not> ifstream_open sys \<or> (verify_alloc_ok sys \<and> length (ifstream_read sys) < unat (file_size r))
        \<longrightarrow> verify sys r = Inr False)"
  by (auto simp: verify_def Let_def min_def of_nat_eq_iff_unat split: if_splits)

theorem verify_true_iff_full_read_and_equal_witness:
  "verify (ideal_system [7, 8, 9])
      \<lparr>filename = ''three.bin'', file_size = 3, buffer = Some [7, 8, 9], num_threads = 1,
       read_chunk_size = 1048576, block_size = 4096, use_odirect = False\<rparr> = Inr True
   \<and> verify (ideal_system [7, 8])
      \<lparr>filename = ''three.bin'', file_size = 3, buffer = Some [7, 8, 9], num_threads = 1,
       read_chunk_size = 1048576, block_size = 4096, use_odirect = False\<rparr> = Inr False"
  using verify_true_iff_full_read_and_equal
          [of "\<lparr>filename = ''three.bin'', file_size = 3, buffer = Some [7, 8, 9], num_threads = 1,
                read_chunk_size = 1048576, block_size = 4096, use_odirect = False\<rparr>"
              "[7, 8, 9]" "ideal_system [7, 8, 9]"]
        verify_true_iff_full_read_and_equal
          [of "\<lparr>filename = ''three.bin'', file_size = 3, buffer = Some [7, 8, 9], num_threads = 1,
                read_chunk_size = 1048576, block_size = 4096, use_odirect = False\<rparr>"
              "[7, 8, 9]" "ideal_system [7, 8]"]
  by (simp add: ideal_system_def)

section \<open>Alignment of the reads of the aligned adapter\<close>




section \<open>The copy of the aligned adapter on a short read\<close>

text \<open>
  Claim C5 fails on the code. A file of 8 bytes is read by 2 threads in direct-aligned
  mode with a chunk of 4096 bytes; the second worker has the section that starts at
  offset 4 and is 4 bytes long, so \<open>offset_in_block = 4\<close>. The file has been cut to
  2 bytes since the constructor sampled its size, so the read of 4096 bytes at offset
  0 retrieves 2 bytes. The exact difference \<open>actually_read - offset_in_block\<close> is
  \<open>-2\<close>: no retrieved byte belongs to the section. The \<open>size_t\<close> subtraction wraps
  to \<open>2^64 - 2\<close>, so the worker copies \<open>min (2^64 - 2) 4 = 4\<close> bytes of the
  uninitialised scratch buffer (here \<open>0xAA\<close>) into the destination and reports 4
  bytes completed.
\<close>

theorem aligned_copy_wraps_on_short_read:
  "readChunk \<lparr>filename = ''eight.bin'', file_size = 8, buffer = None, num_threads = 2,
        read_chunk_size = 4096, block_size = 4096, use_odirect = True\<rparr>
      ((ideal_io [1, 2])\<lparr>scratch_init := (\<lambda>_. 170)\<rparr>) [0, 0, 0, 0, 0, 0, 0, 0] 1 4 4
     = Some (Inr (\<lparr>thread_id = 1, bytes_completed = 4, outcome = Eof, reads = [(0, 4096)]\<rparr>,
                  [0, 0, 0, 0, 170, 170, 170, 170]))"
  by (simp add: readChunk_def ideal_io_def aligned_loop_def while_loop.simps aligned_step_def
        sys_read_def store_def Let_def upt_rec)

section \<open>Terminal conditions of the buffered adapter\<close>

lemma sys_read_count:
  "sys_read io pos count = (ar, data) \<Longrightarrow> ar \<noteq> - 1 \<Longrightarrow>
     ar = of_nat (length data) \<and> length data \<le> unat count \<and> unat ar = length data"
proof (cases "read_at io pos count")
  case ReadFail
  assume "sys_read io pos count = (ar, data)" "ar \<noteq> - 1"
  with ReadFail show ?thesis by (simp add: sys_read_def)
next
  case (ReadData d)
  assume h: "sys_read io pos count = (ar, data)"
  with ReadData have d: "data = take (unat count) d" and ar: "ar = of_nat (length data)"
    by (auto simp: sys_read_def)
  from d have le: "length data \<le> unat count" by simp
  have "unat count < 2 ^ LENGTH(64)" by (rule unsigned_less)
  with le have "length data < 2 ^ LENGTH(64)" by simp
  then have "unat (of_nat (length data) :: size_t) = length data" by (simp add: unat_of_nat)
  with ar le show ?thesis by simp
qed



section \<open>Partitioning\<close>

lemma unat_succ: "(i :: size_t) < n \<Longrightarrow> unat (i + 1) = Suc (unat i)"
  by unat_arith

lemma spawn_loop_nth:
  "unat nt - unat i = d \<Longrightarrow> i \<le> nt \<Longrightarrow>
     length (spawn_loop nt c rm i off) = d \<and>
     (\<forall>k<d. spawn_loop nt c rm i off ! k
        = (i + of_nat k, off + of_nat k * c, if i + of_nat k = nt - 1 then c + rm else c))"
proof (induction d arbitrary: i off)
  case 0
  then have "\<not> i < nt" by (simp add: word_less_nat_alt word_le_nat_alt)
  then show ?case by (simp add: spawn_loop.simps)
next
  case (Suc d)
  from Suc.prems have lt: "i < nt" by (simp add: word_less_nat_alt)
  let ?cur = "if i = nt - 1 then c + rm else c"
  have unf: "spawn_loop nt c rm i off = (i, off, ?cur) # spawn_loop nt c rm (i + 1) (off + ?cur)"
    using lt by (subst spawn_loop.simps) (simp add: Let_def)
  from lt have s: "unat (i + 1) = Suc (unat i)" by (rule unat_succ)
  with Suc.prems lt have d: "unat nt - unat (i + 1) = d" and le: "i + 1 \<le> nt"
    by (simp_all add: word_le_nat_alt word_less_nat_alt)
  note IH = Suc.IH [OF d le, of "off + ?cur"]
  show ?case
  proof (intro conjI allI impI)
    show "length (spawn_loop nt c rm i off) = Suc d" using unf IH by simp
  next
    fix k assume k: "k < Suc d"
    show "spawn_loop nt c rm i off ! k
        = (i + of_nat k, off + of_nat k * c, if i + of_nat k = nt - 1 then c + rm else c)"
    proof (cases k)
      case 0
      then show ?thesis using unf by simp
    next
      case (Suc k')
      with k have k': "k' < d" by simp
      then have "0 < d" by simp
      with d have "unat (i + 1) < unat nt" by simp
      with s have "unat i \<noteq> unat nt - 1" by simp
      moreover have "unat (nt - 1) = unat nt - 1"
        using lt by unat_arith
      ultimately have ne: "i \<noteq> nt - 1" by auto
      from IH k' have "spawn_loop nt c rm (i + 1) (off + ?cur) ! k'
          = (i + 1 + of_nat k', off + ?cur + of_nat k' * c,
             if i + 1 + of_nat k' = nt - 1 then c + rm else c)" by blast
      with ne unf Suc show ?thesis by (simp add: algebra_simps)
    qed
  qed
qed

lemma chain_sum: "chain a ps b \<Longrightarrow> a + sum_list (map section_length ps) = b"
  by (induction a ps b rule: chain.induct) (auto simp: section_length_def)

lemma spawn_loop_chain:
  "unat nt - unat i = Suc d \<Longrightarrow> unat off + Suc d * unat c + unat rm < 2 ^ 64 \<Longrightarrow>
     chain (unat off) (spawn_loop nt c rm i off) (unat off + Suc d * unat c + unat rm)"
proof (induction d arbitrary: i off)
  case 0
  then have lt: "i < nt" by (simp add: word_less_nat_alt)
  from lt have s: "unat (i + 1) = Suc (unat i)" by (rule unat_succ)
  have "unat (nt - 1) = unat nt - 1" using lt by unat_arith
  with 0 have last: "i = nt - 1" by (simp add: word_unat_eq_iff)
  from 0 s have "\<not> i + 1 < nt" by (simp add: word_less_nat_alt)
  then have nil: "spawn_loop nt c rm (i + 1) (off + (c + rm)) = []"
    by (subst spawn_loop.simps) simp
  have unf: "spawn_loop nt c rm i off = [(i, off, c + rm)]"
    using lt last nil by (subst spawn_loop.simps) (simp add: Let_def)
  from 0 have "unat c + unat rm < 2 ^ LENGTH(64)" by simp
  then have "unat (c + rm) = unat c + unat rm" by (simp add: unat_add_lem [THEN iffD1])
  with unf show ?case by simp
next
  case (Suc d)
  then have lt: "i < nt" by (simp add: word_less_nat_alt)
  from lt have s: "unat (i + 1) = Suc (unat i)" by (rule unat_succ)
  have "unat (nt - 1) = unat nt - 1" using lt by unat_arith
  with Suc.prems have ne: "i \<noteq> nt - 1" by auto
  have unf: "spawn_loop nt c rm i off = (i, off, c) # spawn_loop nt c rm (i + 1) (off + c)"
    using lt ne by (subst spawn_loop.simps) (simp add: Let_def)
  from Suc.prems have "unat off + unat c < 2 ^ LENGTH(64)" by simp
  then have oc: "unat (off + c) = unat off + unat c" by (simp add: unat_add_lem [THEN iffD1])
  from Suc.prems s have d: "unat nt - unat (i + 1) = Suc d" by simp
  from Suc.prems oc have b: "unat (off + c) + Suc d * unat c + unat rm < 2 ^ 64" by simp
  from Suc.IH [OF d b] oc unf show ?case by (simp add: algebra_simps)
qed

text \<open>The sections that \<open>read()\<close> hands out, for a thread count that is not 0.\<close>

lemma partitions_sections:
  assumes nt: "num_threads r \<noteq> 0"
  shows "\<exists>ps. partitions r = Inr ps
           \<and> length ps = unat (num_threads r)
           \<and> (\<forall>k<unat (num_threads r). \<exists>i off len. ps ! k = (i, off, len)
                 \<and> unat i = k
                 \<and> unat off = k * (unat (file_size r) div unat (num_threads r))
                 \<and> unat len = (if k = unat (num_threads r) - 1
                                then unat (file_size r) div unat (num_threads r)
                                     + unat (file_size r) mod unat (num_threads r)
                                else unat (file_size r) div unat (num_threads r)))
           \<and> chain 0 ps (unat (file_size r))
           \<and> sum_list (map section_length ps) = unat (file_size r)"
proof -
  let ?nt = "num_threads r" and ?fs = "file_size r"
  let ?c = "?fs div ?nt" and ?rm = "?fs mod ?nt"
  let ?ps = "spawn_loop ?nt ?c ?rm 0 0"
  let ?N = "unat ?nt" and ?F = "unat ?fs"
  from nt have N: "0 < ?N" by (simp add: unat_gt_0)
  have uc: "unat ?c = ?F div ?N" by (simp add: unat_div)
  have ur: "unat ?rm = ?F mod ?N" by (simp add: unat_mod)
  have F: "?F < 2 ^ LENGTH(64)" by (rule unsigned_less)
  have split: "?N * (?F div ?N) + ?F mod ?N = ?F" by simp
  have ps: "partitions r = Inr ?ps" using nt by (simp add: partitions_def Let_def)
  from spawn_loop_nth [of ?nt 0 ?N ?c ?rm 0]
  have len: "length ?ps = ?N"
    and nth: "\<And>k. k < ?N \<Longrightarrow> ?ps ! k
        = (of_nat k, of_nat k * ?c, if of_nat k = ?nt - 1 then ?c + ?rm else ?c)"
    by simp_all
  obtain d where d: "?N = Suc d" using N by (cases ?N) simp_all
  from split d have bound: "unat (0 :: size_t) + Suc d * unat ?c + unat ?rm < 2 ^ 64"
    using F by (simp add: uc ur)
  from spawn_loop_chain [of ?nt 0 d 0 ?c ?rm] d bound
  have "chain 0 ?ps (Suc d * unat ?c + unat ?rm)" by simp
  with split d have ch: "chain 0 ?ps ?F" by (simp add: uc ur)
  from chain_sum [OF ch] have sum: "sum_list (map section_length ?ps) = ?F" by simp
  have each: "\<exists>i off len. ?ps ! k = (i, off, len) \<and> unat i = k \<and> unat off = k * (?F div ?N)
                 \<and> unat len = (if k = ?N - 1 then ?F div ?N + ?F mod ?N else ?F div ?N)"
    if k: "k < ?N" for k
  proof -
    have N64: "?N < 2 ^ LENGTH(64)" by (rule unsigned_less)
    with k have k64: "k < 2 ^ LENGTH(64)" by simp
    then have uk: "unat (of_nat k :: size_t) = k" by (simp add: unat_of_nat)
    have "k * (?F div ?N) \<le> ?N * (?F div ?N)" using k by simp
    also have "\<dots> \<le> ?F" by simp
    finally have "unat (of_nat k :: size_t) * unat ?c < 2 ^ LENGTH(64)" using F by (simp add: uk uc)
    then have uoff: "unat (of_nat k * ?c) = k * (?F div ?N)"
      by (simp add: unat_mult_lem [THEN iffD1] uk uc)
    have "?F div ?N \<le> ?N * (?F div ?N)" using N by simp
    with split have "?F div ?N + ?F mod ?N \<le> ?F" by linarith
    with F have "unat ?c + unat ?rm < 2 ^ LENGTH(64)" by (simp add: uc ur)
    then have ulast: "unat (?c + ?rm) = ?F div ?N + ?F mod ?N"
      by (simp add: unat_add_lem [THEN iffD1] uc ur)
    have um: "unat (?nt - 1) = ?N - 1" using nt by unat_arith
    have islast: "(of_nat k = ?nt - 1) = (k = ?N - 1)"
      using uk um by (metis word_unat_eq_iff)
    from nth [OF k] uk uoff ulast islast show ?thesis by (simp add: uc)
  qed
  from ps len each ch sum show ?thesis by blast
qed

text \<open>
  Claim C2. For every file size and every thread count of at least 1, the engine hands
  out exactly \<open>num_threads\<close> sections. Section \<open>k\<close> belongs to thread \<open>k\<close>, starts at
  \<open>k * (file_size div num_threads)\<close> and has the length \<open>file_size div num_threads\<close>,
  the last one \<open>file_size mod num_threads\<close> more; none of these numbers wraps. The
  sections are contiguous from 0 to \<open>file_size\<close> (each starts where the one before
  ends, so they do not overlap) and their lengths add up to \<open>file_size\<close>.
\<close>

theorem partitions_tile_the_file:
  assumes nt: "num_threads r \<noteq> 0"
  shows "\<exists>ps. partitions r = Inr ps
           \<and> length ps = unat (num_threads r)
           \<and> (\<forall>k<unat (num_threads r). \<exists>i off len. ps ! k = (i, off, len)
                 \<and> unat i = k
                 \<and> unat off = k * (unat (file_size r) div unat (num_threads r))
                 \<and> unat len = (if k = unat (num_threads r) - 1
                                then unat (file_size r) div unat (num_threads r)
                                     + unat (file_size r) mod unat (num_threads r)
                                else unat (file_size r) div unat (num_threads r)))
           \<and> chain 0 ps (unat (file_size r))
           \<and> sum_list (map section_length ps) = unat (file_size r)"
  using nt by (rule partitions_sections)

theorem partitions_tile_the_file_witness:
  "partitions \<lparr>filename = ''ten.bin'', file_size = 10, buffer = None, num_threads = 3,
        read_chunk_size = 4, block_size = 4096, use_odirect = False\<rparr>
     = Inr [(0, 0, 3), (1, 3, 3), (2, 6, 4)]
   \<and> chain 0 [(0, 0, 3), (1, 3, 3), (2, 6, 4)] 10
   \<and> sum_list (map section_length [(0, 0, 3), (1, 3, 3), (2, 6, 4)]) = 10"
proof -
  let ?r = "\<lparr>filename = ''ten.bin'', file_size = 10, buffer = None, num_threads = 3,
        read_chunk_size = 4, block_size = 4096, use_odirect = False\<rparr>"
  have nt: "num_threads ?r \<noteq> 0" by simp
  have ps: "partitions ?r = Inr [(0, 0, 3), (1, 3, 3), (2, 6, 4)]"
    by (simp add: partitions_def spawn_loop.simps)
  from partitions_tile_the_file [OF nt] ps show ?thesis by simp
qed

section \<open>Stores and signed comparison\<close>

lemma store_Inr:
  "store b off data = Inr b' \<longleftrightarrow>
     off + length data \<le> length b \<and> b' = take off b @ data @ drop (off + length data) b"
  by (auto simp: store_def)

lemma store_length: "store b off data = Inr b' \<Longrightarrow> length b' = length b"
  by (auto simp: store_def split: if_splits)

lemma store_nth:
  assumes "store b off data = Inr b'"
  shows "b' ! j = (if off \<le> j \<and> j < off + length data then data ! (j - off) else b ! j)"
proof -
  from assms have le: "off + length data \<le> length b"
    and b': "b' = take off b @ data @ drop (off + length data) b"
    by (simp_all add: store_Inr)
  from le have lt: "length (take off b) = off" by simp
  show ?thesis
  proof (cases "j < off")
    case True
    with le b' show ?thesis by (simp add: nth_append)
  next
    case False
    then have j: "off \<le> j" by simp
    have 1: "b' ! j = (data @ drop (off + length data) b) ! (j - off)"
      unfolding b' using False lt by (simp only: nth_append if_False)
    show ?thesis
    proof (cases "j < off + length data")
      case True
      with j have "j - off < length data" by arith
      with 1 True j show ?thesis by (simp add: nth_append)
    next
      case False
      with j have n: "\<not> j - off < length data" by arith
      from False j have e: "off + length data + (j - off - length data) = j" by arith
      from 1 n have "b' ! j = drop (off + length data) b ! (j - off - length data)"
        by (simp add: nth_append)
      also from le have "\<dots> = b ! (off + length data + (j - off - length data))"
        by (rule nth_drop)
      finally show ?thesis using False e by simp
    qed
  qed
qed

lemma sint_eq_unat:
  assumes a: "unat (x :: size_t) < 2 ^ 63"
  shows "sint x = int (unat x)"
proof -
  have u: "int (unat x) = uint x" by simp
  from a have "int (unat x) < int (2 ^ 63)" by (simp only: of_nat_less_iff)
  then have 1: "uint x < 2 ^ 63" by (simp only: u) simp
  have 0: "- (2 ^ 63) \<le> uint x"
    by (rule order_trans [of _ 0]) simp_all
  have "signed_take_bit 63 (uint x) = uint x"
    using 0 1 by (rule signed_take_bit_int_eq_self)
  moreover have "sint x = signed_take_bit 63 (uint x)"
    by (simp add: sint_uint)
  ultimately show ?thesis by (simp only: u)
qed

lemma sless_eq_unat:
  assumes "unat (x :: size_t) < 2 ^ 63" "unat (y :: size_t) < 2 ^ 63" 
  shows "(x <s y) = (unat x < unat y)"
proof -
  have "(x <s y) = (sint x < sint y)" by (rule word_sless_alt)
  also have "\<dots> = (int (unat x) < int (unat y))"
    by (simp only: sint_eq_unat [OF assms(1)] sint_eq_unat [OF assms(2)])
  also have "\<dots> = (unat x < unat y)" by (rule of_nat_less_iff)
  finally show ?thesis .
qed

section \<open>The last iteration of a loop\<close>

lemma while_loop_last: 
  assumes run: "while_loop body n s = Some y"
  shows "carried I body n \<longrightarrow> I s \<longrightarrow> last_iteration I body n y"
proof (rule while_loop.raw_induct [where P = "\<lambda>body n s y. carried I body n \<longrightarrow> I s \<longrightarrow> last_iteration I body n y", rotated])
  show "while_loop body n s = Some y" by (rule run)
next
  fix loop :: "(loop_state \<Rightarrow> error + step_result) \<Rightarrow> size_t \<Rightarrow> loop_state \<Rightarrow> (error + stop \<times> loop_state) option"
  fix body n s y
  assume IH: "\<And>body n s y. loop body n s = Some y \<Longrightarrow>
      carried I body n \<longrightarrow> I s \<longrightarrow> last_iteration I body n y"
  assume unfold: "(if bytes_done s < n
          then case body s of Inl e \<Rightarrow> Some (Inl e)
               | Inr (Break why s') \<Rightarrow> Some (Inr (why, s'))
               | Inr (Continue s') \<Rightarrow> loop body n s'
          else Some (Inr (Done, s))) = Some y"
  show "carried I body n \<longrightarrow> I s \<longrightarrow> last_iteration I body n y"
  proof (intro impI)
    assume st: "carried I body n" and i: "I s"
    show "last_iteration I body n y"
    proof (cases "bytes_done s < n")
      case False
      with unfold i show ?thesis by (auto simp: last_iteration_def)
    next
      case True
      show ?thesis
      proof (cases "body s")
        case (Inl e)
        with unfold True i show ?thesis by (auto simp: last_iteration_def)
      next
        case (Inr res)
        show ?thesis
        proof (cases res)
          case (Break w t)
          with unfold True Inr i show ?thesis by (auto simp: last_iteration_def)
        next
          case (Continue t)
          with unfold True Inr have run': "loop body n t = Some y" by simp
          from st True i Inr Continue have "I t" unfolding carried_def by blast
          with IH [OF run'] st show ?thesis by simp
        qed
      qed
    qed
  qed
qed

section \<open>The frame of a worker\<close>

lemma advance_frame:
  assumes fr: "frame b0 start n s" and lt: "bytes_done s < n"
    and k: "k \<le> n - bytes_done s"
    and st: "store (dest s) (unat (current_offset s)) d = Inr b'"
    and len: "length d = unat k"
    and small: "length b0 < 2 ^ 64"
    and t: "bytes_done t = bytes_done s + k" "current_offset t = current_offset s + k" "dest t = b'"
  shows "frame b0 start n t \<and> unat (bytes_done t) = unat (bytes_done s) + unat k"
proof -
  from lt have rem: "unat (n - bytes_done s) = unat n - unat (bytes_done s)"
    by (simp add: unat_sub word_less_nat_alt word_le_nat_alt)
  from k have "unat k \<le> unat (n - bytes_done s)" by (simp only: word_le_nat_alt)
  with rem have kle: "unat k \<le> unat n - unat (bytes_done s)" by simp
  from lt have lt': "unat (bytes_done s) < unat n" by (simp only: word_less_nat_alt)
  have n64: "unat n < 2 ^ LENGTH(64)" by (rule unsigned_less)
  from kle lt' n64 have "unat (bytes_done s) + unat k < 2 ^ LENGTH(64)" by simp
  then have bd: "unat (bytes_done s + k) = unat (bytes_done s) + unat k"
    by (simp add: unat_add_lem [THEN iffD1])
  from st have fits: "unat (current_offset s) + length d \<le> length (dest s)"
    by (simp add: store_Inr)
  from fr have l: "length (dest s) = length b0"
    and co: "unat (current_offset s) = unat start + unat (bytes_done s)"
    and out: "\<And>j. j < unat start \<or> unat start + unat (bytes_done s) \<le> j \<Longrightarrow> dest s ! j = b0 ! j"
    by (auto simp: frame_def)
  from fits l small len have "unat (current_offset s) + unat k < 2 ^ LENGTH(64)" by simp
  then have co': "unat (current_offset s + k) = unat (current_offset s) + unat k"
    by (simp add: unat_add_lem [THEN iffD1])
  have "dest t ! j = b0 ! j" if j: "j < unat start \<or> unat start + unat (bytes_done t) \<le> j" for j
  proof -
    from j t bd co len have "\<not> (unat (current_offset s) \<le> j \<and> j < unat (current_offset s) + length d)"
      by auto
    with store_nth [OF st, of j] have "b' ! j = dest s ! j" by simp
    moreover from j t bd have "j < unat start \<or> unat start + unat (bytes_done s) \<le> j" by auto
    ultimately show ?thesis using out t by simp
  qed
  with t bd co co' kle lt' l store_length [OF st] show ?thesis
    by (simp add: frame_def)
qed

lemma aligned_step_Inr:
  assumes step: "aligned_step r io n s = Inr res"
  shows "(bytes_done (state_of res) = bytes_done s \<and> current_offset (state_of res) = current_offset s
            \<and> dest (state_of res) = dest s)
         \<or> (\<exists>k d. k \<le> n - bytes_done s
                \<and> store (dest s) (unat (current_offset s)) d = Inr (dest (state_of res))
                \<and> length d = unat k
                \<and> bytes_done (state_of res) = bytes_done s + k
                \<and> current_offset (state_of res) = current_offset s + k)"
proof -
  define ao where "ao = (current_offset s div block_size r) * block_size r"
  define oib where "oib = current_offset s - ao"
  define rem where "rem = n - bytes_done s"
  define btr where "btr = ((min (read_chunk_size r) (rem + oib) + block_size r - 1) div block_size r) * block_size r"
  obtain ar data where rd: "sys_read io ao btr = (ar, data)"
    by (cases "sys_read io ao btr")
  define k where "k = min (ar - oib) rem"
  define d where "d = map (\<lambda>i. if i < length data then data ! i else temp_buffer s i)
                        [unat oib ..< unat oib + unat k]"
  have kle: "k \<le> n - bytes_done s" by (simp add: k_def rem_def)
  have len: "length d = unat k" by (simp add: d_def)
  from step have bs: "block_size r \<noteq> 0" by (auto simp: aligned_step_def)
  show ?thesis
  proof (cases "lseek_ok io ao \<and> ar \<noteq> - 1")
    case False
    with step bs rd have "bytes_done (state_of res) = bytes_done s \<and> current_offset (state_of res) = current_offset s
            \<and> dest (state_of res) = dest s"
      by (auto simp: aligned_step_def Let_def ao_def [symmetric] oib_def [symmetric]
            rem_def [symmetric] btr_def [symmetric] split: if_splits)
    then show ?thesis ..
  next
    case True
    with step bs rd obtain b where st: "store (dest s) (unat (current_offset s)) d = Inr b"
      and res: "dest (state_of res) = b" "bytes_done (state_of res) = bytes_done s + k"
          "current_offset (state_of res) = current_offset s + k"
      by (auto simp: aligned_step_def Let_def ao_def [symmetric] oib_def [symmetric]
            rem_def [symmetric] btr_def [symmetric] k_def [symmetric] d_def [symmetric]
            split: if_splits sum.splits)
    with kle len show ?thesis by blast
  qed
qed

lemma buffered_step_Inr:
  assumes step: "buffered_step r io n s = Inr res"
  shows "(bytes_done (state_of res) = bytes_done s \<and> current_offset (state_of res) = current_offset s
            \<and> dest (state_of res) = dest s)
         \<or> (\<exists>k d. k \<le> n - bytes_done s
                \<and> store (dest s) (unat (current_offset s)) d = Inr (dest (state_of res))
                \<and> length d = unat k
                \<and> bytes_done (state_of res) = bytes_done s + k
                \<and> current_offset (state_of res) = current_offset s + k)"
proof -
  define btr where "btr = min (read_chunk_size r) (n - bytes_done s)"
  obtain ar data where rd: "sys_read io (current_offset s) btr = (ar, data)"
    by (cases "sys_read io (current_offset s) btr")
  show ?thesis
  proof (cases "lseek_ok io (current_offset s) \<and> ar \<noteq> - 1")
    case False
    with step rd have "bytes_done (state_of res) = bytes_done s \<and> current_offset (state_of res) = current_offset s
            \<and> dest (state_of res) = dest s"
      by (auto simp: buffered_step_def Let_def btr_def [symmetric] split: if_splits)
    then show ?thesis ..
  next
    case True
    from sys_read_count [OF rd] True have len: "length data = unat ar" and "unat ar \<le> unat btr"
      by auto
    then have "ar \<le> btr" by (simp only: word_le_nat_alt)
    also have "btr \<le> n - bytes_done s" by (simp add: btr_def)
    finally have kle: "ar \<le> n - bytes_done s" .
    from True step rd obtain b where st: "store (dest s) (unat (current_offset s)) data = Inr b"
      and res: "dest (state_of res) = b" "bytes_done (state_of res) = bytes_done s + ar"
          "current_offset (state_of res) = current_offset s + ar"
      by (auto simp: buffered_step_def Let_def btr_def [symmetric] split: if_splits sum.splits)
    with kle len show ?thesis by blast
  qed
qed

lemma step_frame:
  assumes shape: "(bytes_done t = bytes_done s \<and> current_offset t = current_offset s \<and> dest t = dest s)
         \<or> (\<exists>k d. k \<le> n - bytes_done s
                \<and> store (dest s) (unat (current_offset s)) d = Inr (dest t)
                \<and> length d = unat k
                \<and> bytes_done t = bytes_done s + k
                \<and> current_offset t = current_offset s + k)"
    and fr: "frame b0 start n s" and lt: "bytes_done s < n" and small: "length b0 < 2 ^ 64"
  shows "frame b0 start n t \<and> unat (bytes_done s) \<le> unat (bytes_done t)"
  using shape
proof
  assume "bytes_done t = bytes_done s \<and> current_offset t = current_offset s \<and> dest t = dest s"
  with fr show ?thesis by (simp add: frame_def)
next
  assume "\<exists>k d. k \<le> n - bytes_done s
                \<and> store (dest s) (unat (current_offset s)) d = Inr (dest t)
                \<and> length d = unat k
                \<and> bytes_done t = bytes_done s + k
                \<and> current_offset t = current_offset s + k"
  then obtain k d where "k \<le> n - bytes_done s"
    "store (dest s) (unat (current_offset s)) d = Inr (dest t)" "length d = unat k"
    "bytes_done t = bytes_done s + k" "current_offset t = current_offset s + k" by blast
  from advance_frame [OF fr lt this(1,2,3) small this(4,5)] show ?thesis by simp
qed

lemma worker_loop_frame:
  assumes run: "while_loop body n s0 = Some (Inr (why, s'))"
    and body: "body = aligned_step r io n \<or> body = buffered_step r io n"
    and s0: "bytes_done s0 = 0" "current_offset s0 = start" "dest s0 = b"
    and small: "length b < 2 ^ 64"
  shows "frame b start n s'"
proof (rule while_loop_invariant [OF run, where I = "frame b start n"])
  show "frame b start n s0" using s0 by (simp add: frame_def)
next
  fix s res
  assume lt: "bytes_done s < n" and fr: "frame b start n s" and st: "body s = Inr res"
  from body st have "(bytes_done (state_of res) = bytes_done s \<and> current_offset (state_of res) = current_offset s
            \<and> dest (state_of res) = dest s)
         \<or> (\<exists>k d. k \<le> n - bytes_done s
                \<and> store (dest s) (unat (current_offset s)) d = Inr (dest (state_of res))
                \<and> length d = unat k
                \<and> bytes_done (state_of res) = bytes_done s + k
                \<and> current_offset (state_of res) = current_offset s + k)"
    using aligned_step_Inr buffered_step_Inr by blast
  from step_frame [OF this fr lt small] show "frame b start n (state_of res)" by simp
qed

text \<open>
  A worker changes no byte of the destination buffer outside the first
  \<open>bytes_completed\<close> bytes of its own section, whatever the kernel answers.
\<close>

lemma readChunk_frame:
  assumes run: "readChunk r io b tid start n = Some (Inr (rep, b'))" and small: "length b < 2 ^ 64"
  shows "length b' = length b \<and> unat (bytes_completed rep) \<le> unat n
         \<and> (\<forall>j. j < unat start \<or> unat start + unat (bytes_completed rep) \<le> j \<longrightarrow> b' ! j = b ! j)"
proof (cases "open_ok io \<and> (use_odirect r \<longrightarrow> memalign_ok io)")
  case False
  with run show ?thesis by (auto simp: readChunk_def split: if_splits)
next
  case True
  let ?s0 = "\<lparr>bytes_done = 0, current_offset = start, dest = b,
               temp_buffer = scratch_init io, issued = []\<rparr>"
  let ?body = "if use_odirect r then aligned_step r io n else buffered_step r io n"
  from run True obtain why s' where
    loop: "while_loop ?body n ?s0 = Some (Inr (why, s'))"
    and rep: "bytes_completed rep = bytes_done s'" "b' = dest s'"
    by (auto simp: readChunk_def aligned_loop_def buffered_loop_def
             split: option.splits sum.splits if_splits)
  have "frame b start n s'"
    by (rule worker_loop_frame [OF loop _ _ _ _ small, of r io]) simp_all
  with rep show ?thesis by (simp add: frame_def)
qed

section \<open>Zero-fill and what the workers leave untouched\<close>

lemma chain_le: "chain a ps e \<Longrightarrow> a \<le> e"
  by (induction a ps e rule: chain.induct) auto

lemma chain_nth:
  "chain a ps e \<Longrightarrow> k < length ps \<Longrightarrow>
     (case ps ! k of (i, off, len) \<Rightarrow> a \<le> unat off \<and> unat off + unat len \<le> e)"
proof (induction a ps e arbitrary: k rule: chain.induct)
  case (1 a b)
  then show ?case by simp
next
  case (2 a i off len ps b)
  show ?case
  proof (cases k)
    case 0
    with 2 chain_le [of "a + unat len" ps b] show ?thesis by simp
  next
    case (Suc k')
    with 2 have "case ps ! k' of (i, off', len') \<Rightarrow> a + unat len \<le> unat off' \<and> unat off' + unat len' \<le> b"
      by simp
    with Suc show ?thesis by (auto split: prod.splits)
  qed
qed

lemma memset_threads_chain:
  "chain a ps e \<Longrightarrow> e \<le> length b \<Longrightarrow>
     \<exists>b'. memset_threads b ps = Inr b' \<and> length b' = length b
        \<and> (\<forall>j. b' ! j = (if a \<le> j \<and> j < e then 0 else b ! j))"
proof (induction a ps e arbitrary: b rule: chain.induct)
  case (1 a e)
  then show ?case by auto
next
  case (2 a i off len ps e)
  from "2.prems" have off: "unat off = a" and ch: "chain (a + unat len) ps e" by simp_all
  from chain_le [OF ch] "2.prems" have fits: "a + unat len \<le> length b" by simp
  then obtain b1 where st: "store b (unat off) (replicate (unat len) 0) = Inr b1"
    by (simp add: store_def off)
  from store_length [OF st] "2.prems" have "e \<le> length b1" by simp
  from "2.IH" [OF ch this] obtain b' where
    run: "memset_threads b1 ps = Inr b'" and l: "length b' = length b1"
    and nth: "\<And>j. b' ! j = (if a + unat len \<le> j \<and> j < e then 0 else b1 ! j)" by blast
  have "b' ! j = (if a \<le> j \<and> j < e then 0 else b ! j)" for j
    using nth [of j] store_nth [OF st, of j] chain_le [OF ch] off by auto
  with run l st store_length [OF st] show ?case by simp
qed

lemma zero_filled_zero:
  assumes nt: "num_threads r \<noteq> 0" and al: "alloc_ok sys"
  shows "zero_filled sys r = Inr (replicate (unat (file_size r)) 0)"
proof -
  let ?b = "map (heap_init sys) [0 ..< unat (file_size r)]"
  from partitions_sections [OF nt] obtain ps where
    ps: "partitions r = Inr ps" and ch: "chain 0 ps (unat (file_size r))" by blast
  from memset_threads_chain [OF ch, of ?b] obtain b' where
    run: "memset_threads ?b ps = Inr b'" and l: "length b' = unat (file_size r)"
    and nth: "\<And>j. b' ! j = (if 0 \<le> j \<and> j < unat (file_size r) then 0 else ?b ! j)"
    by auto
  have "b' = replicate (unat (file_size r)) 0"
    by (rule nth_equalityI) (simp_all add: l nth)
  with run ps al show ?thesis by (simp add: zero_filled_def)
qed

lemma read_threads_frame:
  "read_threads r w b ps = Some (Inr (b', reps)) \<Longrightarrow> chain a ps e \<Longrightarrow> length b < 2 ^ 64 \<Longrightarrow>
     length b' = length b \<and> length reps = length ps
     \<and> (\<forall>j. j < a \<or> e \<le> j \<longrightarrow> b' ! j = b ! j)
     \<and> (\<forall>k<length ps. case ps ! k of (i, off, len) \<Rightarrow>
           \<forall>j. unat off + unat (bytes_completed (reps ! k)) \<le> j \<and> j < unat off + unat len
               \<longrightarrow> b' ! j = b ! j)"
proof (induction r w b ps arbitrary: a b' reps rule: read_threads.induct)
  case (1 r w b)
  then show ?case by simp
next
  case (2 r w b i off len ps)
  from "2.prems"(2) have off: "unat off = a" and ch: "chain (a + unat len) ps e" by simp_all
  from "2.prems"(1) obtain rep b1 reps' where
    w: "readChunk r (w i) b i off len = Some (Inr (rep, b1))"
    and rest: "read_threads r w b1 ps = Some (Inr (b', reps'))"
    and reps: "reps = rep # reps'"
    by (auto split: option.splits sum.splits)
  from readChunk_frame [OF w "2.prems"(3)] have
    l1: "length b1 = length b" and c: "unat (bytes_completed rep) \<le> unat len"
    and f1: "\<And>j. j < unat off \<or> unat off + unat (bytes_completed rep) \<le> j \<Longrightarrow> b1 ! j = b ! j"
    by auto
  from l1 "2.prems"(3) have small1: "length b1 < 2 ^ 64" by simp
  from "2.IH" [OF w refl refl rest ch small1] have
    l: "length b' = length b1" and lr: "length reps' = length ps"
    and out: "\<And>j. j < a + unat len \<or> e \<le> j \<Longrightarrow> b' ! j = b1 ! j"
    and inner: "\<And>k. k < length ps \<Longrightarrow> case ps ! k of (i, off', len') \<Rightarrow>
           \<forall>j. unat off' + unat (bytes_completed (reps' ! k)) \<le> j \<and> j < unat off' + unat len'
               \<longrightarrow> b' ! j = b1 ! j"
    by auto
  note ae = chain_le [OF ch]
  show ?case
  proof (intro conjI allI impI)
    show "length b' = length b" using l l1 by simp
    show "length reps = length ((i, off, len) # ps)" using reps lr by simp
  next
    fix j assume "j < a \<or> e \<le> j"
    with out [of j] f1 [of j] off c ae show "b' ! j = b ! j" by auto
  next
    fix k assume k: "k < length ((i, off, len) # ps)"
    show "case ((i, off, len) # ps) ! k of (i, off, len) \<Rightarrow>
           \<forall>j. unat off + unat (bytes_completed (reps ! k)) \<le> j \<and> j < unat off + unat len
               \<longrightarrow> b' ! j = b ! j"
    proof (cases k)
      case 0
      have "b' ! j = b ! j" if "unat off + unat (bytes_completed rep) \<le> j \<and> j < unat off + unat len" for j
        using that out [of j] f1 [of j] off by auto
      with 0 reps show ?thesis by simp
    next
      case (Suc k')
      with k have k': "k' < length ps" by simp
      obtain i' off' len' where p: "ps ! k' = (i', off', len')" by (cases "ps ! k'")
      from chain_nth [OF ch k'] p have lo: "a + unat len \<le> unat off'" by simp
      have "b' ! j = b ! j"
        if "unat off' + unat (bytes_completed (reps' ! k')) \<le> j \<and> j < unat off' + unat len'" for j
      proof -
        from inner [OF k'] p that have "b' ! j = b1 ! j" by simp
        moreover from that lo c off have "unat off + unat (bytes_completed rep) \<le> j" by simp
        ultimately show ?thesis using f1 [of j] by simp
      qed
      with Suc reps p show ?thesis by simp
    qed
  qed
qed
text \<open>
  Claim C4. The threads of a phase are modelled in the order they are spawned, one
  after the other, and the read phase starts from the buffer that the zero-fill phase
  returns (the \<open>join\<close> loop between the two phases). For every thread count that is
  not 0 the zero-fill sections tile the buffer, so the zero-fill phase returns a
  buffer of \<open>file_size\<close> zero bytes whatever the fresh memory held, and this is the
  buffer the workers start on. After the read phase, whatever the kernel answered to
  each worker, every byte of a section beyond the first \<open>bytes_completed\<close> bytes that
  its worker reports is zero.
\<close>

theorem zero_fill_before_read_and_untouched_bytes_zero:
  "(num_threads r \<noteq> 0 \<and> alloc_ok sys \<longrightarrow>
      zero_filled sys r = Inr (replicate (unat (file_size r)) 0))
   \<and> (read sys r = Some (Inr (r', reps)) \<longrightarrow>
        (\<exists>b ps. buffer r' = Some b \<and> partitions r = Inr ps
           \<and> read_threads r (worker sys) (replicate (unat (file_size r)) 0) ps = Some (Inr (b, reps))
           \<and> length b = unat (file_size r) \<and> length reps = length ps
           \<and> (\<forall>k<length ps. case ps ! k of (i, off, len) \<Rightarrow>
                 \<forall>j. unat off + unat (bytes_completed (reps ! k)) \<le> j \<and> j < unat off + unat len
                     \<longrightarrow> b ! j = 0)))"
proof (intro conjI impI)
  show "zero_filled sys r = Inr (replicate (unat (file_size r)) 0)"
    if "num_threads r \<noteq> 0 \<and> alloc_ok sys"
    using that zero_filled_zero by blast
next
  let ?F = "unat (file_size r)"
  let ?z = "replicate ?F (0 :: byte)"
  assume run: "read sys r = Some (Inr (r', reps))"
  then obtain b0 ps b where zf: "zero_filled sys r = Inr b0" and ps: "partitions r = Inr ps"
    and th: "read_threads r (worker sys) b0 ps = Some (Inr (b, reps))"
    and r': "buffer r' = Some b"
    by (auto simp: read_def split: sum.splits option.splits)
  from ps have nt: "num_threads r \<noteq> 0" by (auto simp: partitions_def split: if_splits)
  from zf have al: "alloc_ok sys" by (auto simp: zero_filled_def split: if_splits)
  from zero_filled_zero [OF nt al] zf have b0: "b0 = ?z" by simp
  from partitions_sections [OF nt] ps have ch: "chain 0 ps ?F" by auto
  have "?F < 2 ^ LENGTH(64)" by (rule unsigned_less)
  then have small: "length ?z < 2 ^ 64" by simp
  from read_threads_frame [OF th [unfolded b0] ch small] have
    l: "length b = ?F" and lr: "length reps = length ps"
    and inner: "\<And>k. k < length ps \<Longrightarrow> case ps ! k of (i, off, len) \<Rightarrow>
           \<forall>j. unat off + unat (bytes_completed (reps ! k)) \<le> j \<and> j < unat off + unat len
               \<longrightarrow> b ! j = ?z ! j"
    by auto
  have "case ps ! k of (i, off, len) \<Rightarrow>
           \<forall>j. unat off + unat (bytes_completed (reps ! k)) \<le> j \<and> j < unat off + unat len
               \<longrightarrow> b ! j = 0" if k: "k < length ps" for k
  proof -
    obtain i off len where p: "ps ! k = (i, off, len)" by (cases "ps ! k")
    from chain_nth [OF ch k] p have hi: "unat off + unat len \<le> ?F" by simp
    have "b ! j = 0" if "unat off + unat (bytes_completed (reps ! k)) \<le> j \<and> j < unat off + unat len" for j
    proof -
      from inner [OF k] p that have "b ! j = ?z ! j" by simp
      moreover from that hi have "j < ?F" by simp
      ultimately show ?thesis by simp
    qed
    with p show ?thesis by simp
  qed
  with r' ps th b0 l lr
  show "\<exists>b ps. buffer r' = Some b \<and> partitions r = Inr ps
           \<and> read_threads r (worker sys) ?z ps = Some (Inr (b, reps))
           \<and> length b = ?F \<and> length reps = length ps
           \<and> (\<forall>k<length ps. case ps ! k of (i, off, len) \<Rightarrow>
                 \<forall>j. unat off + unat (bytes_completed (reps ! k)) \<le> j \<and> j < unat off + unat len
                     \<longrightarrow> b ! j = 0)"
    by blast
qed

theorem zero_fill_before_read_and_untouched_bytes_zero_witness:
  "zero_filled
      ((ideal_system [1, 2, 3, 4, 5, 6])
         \<lparr>worker := (\<lambda>i. if i = 1 then (ideal_io [1, 2, 3, 4, 5, 6])\<lparr>open_ok := False\<rparr>
                         else ideal_io [1, 2, 3, 4, 5, 6])\<rparr>)
      \<lparr>filename = ''six.bin'', file_size = 6, buffer = None, num_threads = 2,
       read_chunk_size = 4, block_size = 4096, use_odirect = False\<rparr>
     = Inr [0, 0, 0, 0, 0, 0]
   \<and> read
      ((ideal_system [1, 2, 3, 4, 5, 6])
         \<lparr>worker := (\<lambda>i. if i = 1 then (ideal_io [1, 2, 3, 4, 5, 6])\<lparr>open_ok := False\<rparr>
                         else ideal_io [1, 2, 3, 4, 5, 6])\<rparr>)
      \<lparr>filename = ''six.bin'', file_size = 6, buffer = None, num_threads = 2,
       read_chunk_size = 4, block_size = 4096, use_odirect = False\<rparr>
     = Some (Inr (\<lparr>filename = ''six.bin'', file_size = 6, buffer = Some [1, 2, 3, 0, 0, 0],
                   num_threads = 2, read_chunk_size = 4, block_size = 4096, use_odirect = False\<rparr>,
                  [\<lparr>thread_id = 0, bytes_completed = 3, outcome = Done, reads = [(0, 3)]\<rparr>,
                   \<lparr>thread_id = 1, bytes_completed = 0, outcome = OpenFailed, reads = []\<rparr>]))"
proof -
  let ?sys = "(ideal_system [1, 2, 3, 4, 5, 6])
         \<lparr>worker := (\<lambda>i. if i = 1 then (ideal_io [1, 2, 3, 4, 5, 6])\<lparr>open_ok := False\<rparr>
                         else ideal_io [1, 2, 3, 4, 5, 6])\<rparr>"
  let ?r = "\<lparr>filename = ''six.bin'', file_size = 6, buffer = None, num_threads = 2,
       read_chunk_size = 4, block_size = 4096, use_odirect = False\<rparr>"
  let ?r' = "\<lparr>filename = ''six.bin'', file_size = 6, buffer = Some [1, 2, 3, 0, 0, 0],
                   num_threads = 2, read_chunk_size = 4, block_size = 4096, use_odirect = False\<rparr>"
  let ?reps = "[\<lparr>thread_id = 0, bytes_completed = 3, outcome = Done, reads = [(0, 3)]\<rparr>,
                   \<lparr>thread_id = 1, bytes_completed = 0, outcome = OpenFailed, reads = []\<rparr>]"
  have hyp: "num_threads ?r \<noteq> 0 \<and> alloc_ok ?sys"
    by (simp add: ideal_system_def)
  have rep: "replicate 3 (0 :: byte) = [0, 0, 0]" "replicate 6 (0 :: byte) = [0, 0, 0, 0, 0, 0]"
    by (simp_all add: numeral_eq_Suc)
  have run: "read ?sys ?r = Some (Inr (?r', ?reps))"
    by (simp add: rep read_def zero_filled_def partitions_def spawn_loop.simps ideal_system_def
          ideal_io_def readChunk_def buffered_loop_def while_loop.simps buffered_step_def
          sys_read_def store_def Let_def upt_rec word_sless_alt)
  from zero_fill_before_read_and_untouched_bytes_zero [of ?r ?sys ?r' ?reps] hyp run
  show ?thesis by (simp add: rep)
qed

section \<open>The adapters on a file that does not change\<close>

lemma unat_min: "unat (min a b) = min (unat a) (unat (b :: size_t))"
  by (simp add: min_def word_le_nat_alt)

lemma word_eq_unatI: "unat (a :: size_t) = unat b \<Longrightarrow> a = b"
  by (simp add: word_unat_eq_iff)

lemma take_drop_nth:
  "i < n \<Longrightarrow> a \<le> length xs \<Longrightarrow> take n (drop a xs) ! i = xs ! (a + i)"
  by simp

lemma progresses_loop:
  assumes pr: "progresses content b0 start n body" and init: "filled content b0 start n s0"
  shows "\<exists>why s'. while_loop body n s0 = Some (Inr (why, s'))
           \<and> filled content b0 start n s' \<and> bytes_done s' = n"
proof -
  let ?I = "filled content b0 start n"
  have "\<exists>y. while_loop body n s0 = Some y"
  proof (rule while_loop_returns [where I = ?I and m = "\<lambda>s. unat n - unat (bytes_done s)"])
    show "?I s0" by (rule init)
  next
    fix s t
    assume lt: "bytes_done s < n" and i: "?I s" and st: "body s = Inr (Continue t)"
    from pr lt i st have "?I t" "unat (bytes_done s) < unat (bytes_done t)"
      unfolding progresses_def by fastforce+
    moreover from \<open>?I t\<close> have "unat (bytes_done t) \<le> unat n" by (simp add: filled_def frame_def)
    ultimately show "?I t \<and> unat n - unat (bytes_done t) < unat n - unat (bytes_done s)" by simp
  qed
  then obtain y where run: "while_loop body n s0 = Some y" ..
  have car: "carried ?I body n"
    unfolding carried_def using pr unfolding progresses_def by fastforce
  from while_loop_last [OF run, of ?I] car init have "last_iteration ?I body n y" by blast
  then consider
      (err) e t where "y = Inl e" "?I t" "bytes_done t < n" "body t = Inl e"
    | (brk) why t s' where "y = Inr (why, s')" "?I t" "bytes_done t < n" "body t = Inr (Break why s')"
    | (finished) s' where "y = Inr (Done, s')" "?I s'" "\<not> bytes_done s' < n"
    unfolding last_iteration_def by blast
  then show ?thesis
  proof cases
    case err
    with pr show ?thesis unfolding progresses_def by fastforce
  next
    case brk
    with pr have "?I s' \<and> bytes_done s' = n" unfolding progresses_def by fastforce
    with run brk show ?thesis by simp
  next
    case finished
    from finished(2) have "unat (bytes_done s') \<le> unat n" by (simp add: filled_def frame_def)
    with finished(3) have "bytes_done s' = n"
      by (simp add: word_less_nat_alt word_unat_eq_iff)
    with run finished show ?thesis by simp
  qed
qed

lemma filled_dest:
  assumes f: "filled content b start n s" and d: "bytes_done s = n"
    and fits: "unat start + unat n \<le> length b" "unat start + unat n \<le> length content"
  shows "dest s = with_section content b (unat start) (unat n)"
proof (rule nth_equalityI)
  from f have l: "length (dest s) = length b" by (simp add: filled_def frame_def)
  from fits show len: "length (dest s) = length (with_section content b (unat start) (unat n))"
    by (simp add: with_section_def l)
  fix j assume "j < length (dest s)"
  with l have j: "j < length b" by simp
  from fits have st: "store b (unat start) (take (unat n) (drop (unat start) content))
      = Inr (with_section content b (unat start) (unat n))"
    by (simp add: store_def with_section_def)
  from fits have tl: "length (take (unat n) (drop (unat start) content)) = unat n" by simp
  show "dest s ! j = with_section content b (unat start) (unat n) ! j"
  proof (cases "unat start \<le> j \<and> j < unat start + unat n")
    case True
    with f d have "dest s ! j = content ! j" by (simp add: filled_def)
    moreover from True fits have "take (unat n) (drop (unat start) content) ! (j - unat start)
        = content ! (unat start + (j - unat start))"
      by (intro take_drop_nth) auto
    with True fits store_nth [OF st, of j] tl
    have "with_section content b (unat start) (unat n) ! j = content ! j" by simp
    ultimately show ?thesis by simp
  next
    case False
    with f d have "dest s ! j = b ! j" by (auto simp: filled_def frame_def)
    moreover from False store_nth [OF st, of j] tl
    have "with_section content b (unat start) (unat n) ! j = b ! j" by auto
    ultimately show ?thesis by simp
  qed
qed

lemma sys_read_file:
  assumes io: "reads_file content io"
  shows "sys_read io pos count
           = (of_nat (length (take (unat count) (drop (unat pos) content))),
              take (unat count) (drop (unat pos) content))"
  using io by (simp add: reads_file_def sys_read_def ideal_io_def)

lemma not_minus_one: "unat (x :: size_t) < 2 ^ 63 \<Longrightarrow> x \<noteq> - 1"
proof
  assume a: "unat x < 2 ^ 63" and "x = - 1"
  then have "unat x = unat (- 1 :: size_t)" by simp
  also have "\<dots> = 2 ^ 64 - 1" by (simp add: unsigned_minus_1_eq_mask mask_eq_exp_minus_1)
  finally show False using a by simp
qed

lemma filled_extend:
  assumes f: "filled content b0 start n s" and lt: "bytes_done s < n"
    and k: "k \<le> n - bytes_done s"
    and st: "store (dest s) (unat (current_offset s)) d = Inr b'"
    and len: "length d = unat k"
    and d: "\<And>i. i < unat k \<Longrightarrow> d ! i = content ! (unat (current_offset s) + i)"
    and small: "length b0 < 2 ^ 64"
    and t: "bytes_done t = bytes_done s + k" "current_offset t = current_offset s + k" "dest t = b'"
  shows "filled content b0 start n t \<and> unat (bytes_done t) = unat (bytes_done s) + unat k"
proof -
  from f have fr: "frame b0 start n s"
    and old: "\<And>j. unat start \<le> j \<and> j < unat start + unat (bytes_done s) \<Longrightarrow> dest s ! j = content ! j"
    by (auto simp: filled_def)
  from advance_frame [OF fr lt k st len small t] have fr': "frame b0 start n t"
    and bd: "unat (bytes_done t) = unat (bytes_done s) + unat k" by simp_all
  from fr have co: "unat (current_offset s) = unat start + unat (bytes_done s)" by (simp add: frame_def)
  have "dest t ! j = content ! j" if j: "unat start \<le> j \<and> j < unat start + unat (bytes_done t)" for j
  proof (cases "j < unat (current_offset s)")
    case True
    with store_nth [OF st, of j] have "b' ! j = dest s ! j" by simp
    with True j co old [of j] t show ?thesis by simp
  next
    case False
    with j bd co len have in_d: "unat (current_offset s) \<le> j \<and> j < unat (current_offset s) + length d"
      by simp
    then have "j - unat (current_offset s) < unat k" using len by arith
    from d [OF this] in_d have "d ! (j - unat (current_offset s)) = content ! j" by simp
    with store_nth [OF st, of j] in_d t show ?thesis by simp
  qed
  with fr' bd show ?thesis by (simp add: filled_def)
qed

lemma buffered_progresses:
  assumes io: "reads_file content io" and rcs: "read_chunk_size r \<noteq> 0"
    and fits: "unat start + unat n \<le> length b" "unat start + unat n \<le> length content"
    and small: "length b < 2 ^ 64" "length content < 2 ^ 63"
  shows "progresses content b start n (buffered_step r io n)"
  unfolding progresses_def
proof (intro allI impI)
  fix s
  assume a: "filled content b start n s \<and> bytes_done s < n"
  then have f: "filled content b start n s" and lt: "bytes_done s < n" by simp_all
  from f have l: "length (dest s) = length b"
    and co: "unat (current_offset s) = unat start + unat (bytes_done s)"
    by (simp_all add: filled_def frame_def)
  define btr where "btr = min (read_chunk_size r) (n - bytes_done s)"
  define d where "d = take (unat btr) (drop (unat (current_offset s)) content)"
  from lt have rem: "unat (n - bytes_done s) = unat n - unat (bytes_done s)"
    by (simp add: unat_sub word_less_nat_alt word_le_nat_alt)
  from lt have lt': "unat (bytes_done s) < unat n" by (simp only: word_less_nat_alt)
  have ubtr: "unat btr = min (unat (read_chunk_size r)) (unat n - unat (bytes_done s))"
    by (simp add: btr_def unat_min rem)
  from rcs have "0 < unat (read_chunk_size r)" by (simp add: unat_gt_0)
  with ubtr lt' have pos: "0 < unat btr" by simp
  then have nz: "btr \<noteq> 0" by (simp add: unat_gt_0)
  from ubtr have le_rem: "unat btr \<le> unat n - unat (bytes_done s)" by simp
  with lt' co fits have in_file: "unat (current_offset s) + unat btr \<le> length content"
    and in_buf: "unat (current_offset s) + unat btr \<le> length b" by simp_all
  from in_file have ld: "length d = unat btr" by (simp add: d_def)
  have kle: "btr \<le> n - bytes_done s" by (simp add: btr_def)
  from sys_read_file [OF io, of "current_offset s" btr] ld
  have rd: "sys_read io (current_offset s) btr = (btr, d)" by (simp add: d_def)
  from le_rem lt' fits small have "unat btr < 2 ^ 63" by simp
  then have nm: "btr \<noteq> - 1" by (rule not_minus_one)
  from in_buf l ld obtain b' where st: "store (dest s) (unat (current_offset s)) d = Inr b'"
    by (auto simp: store_def)
  define t where "t = s\<lparr>issued := issued s @ [(current_offset s, btr)],
                        bytes_done := bytes_done s + btr,
                        current_offset := current_offset s + btr, dest := b'\<rparr>"
  from io have seek: "lseek_ok io (current_offset s)" by (simp add: reads_file_def)
  have step: "buffered_step r io n s = Inr (Continue t)"
    using seek rd nm nz st
    by (simp add: buffered_step_def Let_def btr_def [symmetric] t_def)
  have dn: "d ! i = content ! (unat (current_offset s) + i)" if "i < unat btr" for i
    using that in_file unfolding d_def by (intro take_drop_nth) simp_all
  from filled_extend [OF f lt kle st ld dn small(1), of t]
  have "filled content b start n t" "unat (bytes_done t) = unat (bytes_done s) + unat btr"
    by (simp_all add: t_def)
  with step pos
  show "\<exists>t. (buffered_step r io n s = Inr (Continue t)
             \<or> buffered_step r io n s = Inr (Break Eof t) \<and> bytes_done t = n)
            \<and> filled content b start n t \<and> unat (bytes_done s) < unat (bytes_done t)"
    by auto
qed

lemma round_up_nat:
  assumes B: "0 < (B :: nat)"
  shows "x \<le> ((x + B - 1) div B) * B"
    and "C mod B = 0 \<Longrightarrow> x \<le> C \<Longrightarrow> ((x + B - 1) div B) * B \<le> C"
proof -
  have "x + B - 1 = ((x + B - 1) div B) * B + (x + B - 1) mod B" by simp
  moreover have "(x + B - 1) mod B < B" using B by simp
  ultimately show "x \<le> ((x + B - 1) div B) * B" by linarith
next
  assume m: "C mod B = 0" and le: "x \<le> C"
  define q where "q = C div B"
  from m div_mult_mod_eq [of C B] have C: "C = q * B" by (simp add: q_def)
  with le B have "x + B - 1 < (q + 1) * B" by (simp add: algebra_simps)
  then have "(x + B - 1) div B < q + 1" using B by (simp add: div_less_iff_less_mult)
  then have "(x + B - 1) div B \<le> q" by simp
  then have "((x + B - 1) div B) * B \<le> q * B" by (rule mult_le_mono1)
  with C show "((x + B - 1) div B) * B \<le> C" by simp
qed

lemma aligned_progresses:
  assumes io: "reads_file content io"
    and bs: "block_size r \<noteq> 0" and rcs: "read_chunk_size r \<noteq> 0"
    and mult: "read_chunk_size r mod block_size r = 0"
    and rsmall: "unat (read_chunk_size r) < 2 ^ 63"
    and fits: "unat start + unat n \<le> length b" "unat start + unat n \<le> length content"
    and small: "length b < 2 ^ 64" "length content < 2 ^ 63"
  shows "progresses content b start n (aligned_step r io n)"
  unfolding progresses_def
proof (intro allI impI)
  fix s
  assume a: "filled content b start n s \<and> bytes_done s < n"
  then have f: "filled content b start n s" and lt: "bytes_done s < n" by simp_all
  from f have l: "length (dest s) = length b"
    and co: "unat (current_offset s) = unat start + unat (bytes_done s)"
    by (simp_all add: filled_def frame_def)
  let ?B = "unat (block_size r)" and ?C = "unat (read_chunk_size r)"
  let ?CO = "unat (current_offset s)" and ?L = "length content"
  from bs have B: "0 < ?B" by (simp add: unat_gt_0)
  from rcs have C: "0 < ?C" by (simp add: unat_gt_0)
  from mult have "unat (read_chunk_size r mod block_size r) = 0" by simp
  then have CB: "?C mod ?B = 0" by (simp add: unat_mod)
  have BC: "?B \<le> ?C"
  proof (rule ccontr)
    assume "\<not> ?B \<le> ?C"
    then have "?C mod ?B = ?C" by simp
    with CB C show False by simp
  qed
  from lt have lt': "unat (bytes_done s) < unat n" by (simp only: word_less_nat_alt)
  \<comment> \<open>the aligned offset and the offset in the block\<close>
  define ao where "ao = (current_offset s div block_size r) * block_size r"
  define oib where "oib = current_offset s - ao"
  have uao: "unat ao = (?CO div ?B) * ?B" by (simp add: ao_def unat_round_down)
  have "ao \<le> current_offset s" unfolding ao_def by (rule round_down_le)
  then have "unat oib = ?CO - unat ao" unfolding oib_def by (rule unat_sub)
  with uao have uoib: "unat oib = ?CO mod ?B" by (simp add: minus_div_mult_eq_mod)
  with uao have split: "unat ao + unat oib = ?CO" by simp
  from uoib B have oibB: "unat oib < ?B" by simp
  \<comment> \<open>the request\<close>
  define rem where "rem = n - bytes_done s"
  from lt have urem: "unat rem = unat n - unat (bytes_done s)"
    by (simp add: rem_def unat_sub word_less_nat_alt word_le_nat_alt)
  with lt' have rpos: "0 < unat rem" by simp
  from urem fits small have rsm: "unat rem < 2 ^ 63" by simp
  from oibB BC rsmall have osm: "unat oib < 2 ^ 63" by simp
  from rsm osm have "unat rem + unat oib < 2 ^ LENGTH(64)" by simp
  then have usum: "unat (rem + oib) = unat rem + unat oib"
    by (simp add: unat_add_lem [THEN iffD1])
  define btr0 where "btr0 = min (read_chunk_size r) (rem + oib)"
  have ubtr0: "unat btr0 = min ?C (unat rem + unat oib)"
    by (simp add: btr0_def unat_min usum)
  from ubtr0 oibB BC rpos have gt0: "unat oib < unat btr0" by simp
  from ubtr0 have le0: "unat btr0 \<le> ?C" by simp
  from le0 rsmall BC have "unat btr0 + ?B < 2 ^ LENGTH(64)" by simp
  then have u1: "unat (btr0 + block_size r) = unat btr0 + ?B"
    by (simp add: unat_add_lem [THEN iffD1])
  with B have "1 \<le> btr0 + block_size r" by (simp add: word_le_nat_alt)
  then have "unat (btr0 + block_size r - 1) = unat (btr0 + block_size r) - unat (1 :: size_t)"
    by (rule unat_sub)
  with u1 have u2: "unat (btr0 + block_size r - 1) = unat btr0 + ?B - 1" by simp
  define btr where "btr = ((btr0 + block_size r - 1) div block_size r) * block_size r"
  have ubtr: "unat btr = ((unat btr0 + ?B - 1) div ?B) * ?B"
    by (simp add: btr_def unat_round_down u2)
  from round_up_nat [OF B] ubtr le0 CB have tge: "unat btr0 \<le> unat btr" and tle: "unat btr \<le> ?C"
    by simp_all
  \<comment> \<open>the read\<close>
  define d where "d = take (unat btr) (drop (unat ao) content)"
  define ar where "ar = (of_nat (length d) :: size_t)"
  have ld: "length d = min (unat btr) (?L - unat ao)" by (simp add: d_def)
  from sys_read_file [OF io, of ao btr]
  have rd: "sys_read io ao btr = (ar, d)" by (simp add: d_def ar_def)
  from ld tle rsmall have dsm: "length d < 2 ^ 63" by simp
  then have "length d < 2 ^ LENGTH(64)" by simp
  then have uar: "unat ar = length d" by (simp add: ar_def unat_of_nat)
  with dsm have nm: "ar \<noteq> - 1" by (simp add: not_minus_one)
  from co lt' fits have in_file: "?CO < ?L" by simp
  with split have "unat oib < ?L - unat ao" by simp
  with ld gt0 tge have dgt: "unat oib < length d" by simp
  with uar have "oib \<le> ar" by (simp add: word_le_nat_alt)
  then have udiff: "unat (ar - oib) = length d - unat oib" using uar by (simp add: unat_sub)
  \<comment> \<open>the copy\<close>
  define k where "k = min (ar - oib) rem"
  have uk: "unat k = min (length d - unat oib) (unat rem)" by (simp add: k_def unat_min udiff)
  from uk dgt rpos have kpos: "0 < unat k" by simp
  have kle: "k \<le> n - bytes_done s" by (simp add: k_def rem_def)
  from ld tle have chk1: "\<not> ?C < length d" by simp
  from uk dgt have inside: "unat oib + unat k \<le> length d" by simp
  with ld tle have chk2: "\<not> ?C < unat oib + unat k" by simp
  define temp where "temp = (\<lambda>i. if i < length d then d ! i else temp_buffer s i)"
  define dd where "dd = map temp [unat oib ..< unat oib + unat k]"
  have ldd: "length dd = unat k" by (simp add: dd_def)
  from uk urem co lt' fits l have "?CO + length dd \<le> length (dest s)" by (simp add: ldd)
  then obtain b' where st: "store (dest s) ?CO dd = Inr b'" by (auto simp: store_def)
  have ddn: "dd ! i = content ! (?CO + i)" if i: "i < unat k" for i
  proof -
    from i inside have in_d: "unat oib + i < length d" by simp
    from i have "dd ! i = temp (unat oib + i)" by (simp add: dd_def)
    also from in_d have "\<dots> = d ! (unat oib + i)" by (simp add: temp_def)
    also have "\<dots> = content ! (unat ao + (unat oib + i))"
      unfolding d_def using in_d ld by (intro take_drop_nth) auto
    finally show ?thesis using split by (simp add: add.assoc [symmetric])
  qed
  define t where "t = s\<lparr>issued := issued s @ [(ao, btr)],
                        bytes_done := bytes_done s + k,
                        current_offset := current_offset s + k, dest := b', temp_buffer := temp\<rparr>"
  from io have seek: "lseek_ok io ao" by (simp add: reads_file_def)
  have step: "aligned_step r io n s = (if ar <s btr then Inr (Break Eof t) else Inr (Continue t))"
    using bs seek rd nm chk1 chk2 st
    by (simp add: aligned_step_def Let_def ao_def [symmetric] oib_def [symmetric]
          rem_def [symmetric] btr0_def [symmetric] btr_def [symmetric] k_def [symmetric]
          temp_def [symmetric] dd_def [symmetric] t_def)
  from filled_extend [OF f lt kle st ldd ddn small(1), of t]
  have ft: "filled content b start n t" and ubd: "unat (bytes_done t) = unat (bytes_done s) + unat k"
    by (simp_all add: t_def)
  have fin: "bytes_done t = n" if short: "ar <s btr"
  proof -
    from tle rsmall have "unat btr < 2 ^ 63" by simp
    with short dsm uar have "length d < unat btr" by (simp add: sless_eq_unat)
    with ld have "length d = ?L - unat ao" by simp
    with split have "length d - unat oib = ?L - ?CO" by simp
    moreover from co urem lt' fits have "unat rem \<le> ?L - ?CO" by simp
    ultimately have "unat k = unat rem" using uk by simp
    with ubd urem lt' have "unat (bytes_done t) = unat n" by simp
    then show ?thesis by (rule word_eq_unatI)
  qed
  from step ft ubd kpos fin
  show "\<exists>t. (aligned_step r io n s = Inr (Continue t)
             \<or> aligned_step r io n s = Inr (Break Eof t) \<and> bytes_done t = n)
            \<and> filled content b start n t \<and> unat (bytes_done s) < unat (bytes_done t)"
    by (cases "ar <s btr") auto
qed

lemma with_section_nth:
  assumes fits: "start + n \<le> length b" "start + n \<le> length content"
  shows "length (with_section content b start n) = length b"
    and "with_section content b start n ! j = (if start \<le> j \<and> j < start + n then content ! j else b ! j)"
proof -
  from fits have st: "store b start (take n (drop start content)) = Inr (with_section content b start n)"
    by (simp add: store_def with_section_def)
  from fits have tl: "length (take n (drop start content)) = n" by simp
  from store_length [OF st] show "length (with_section content b start n) = length b" .
  show "with_section content b start n ! j = (if start \<le> j \<and> j < start + n then content ! j else b ! j)"
  proof (cases "start \<le> j \<and> j < start + n")
    case True
    with fits have "take n (drop start content) ! (j - start) = content ! (start + (j - start))"
      by (intro take_drop_nth) auto
    with True store_nth [OF st, of j] tl show ?thesis by simp
  next
    case False
    with store_nth [OF st, of j] tl show ?thesis by auto
  qed
qed

text \<open>
  On a file that does not change, a worker of either mode returns, reports its whole
  section, and leaves the buffer with exactly the bytes of the section replaced by
  those of the file.
\<close>

lemma readChunk_file:
  assumes io: "reads_file content io" and cfg: "well_configured r"
    and fits: "unat start + unat n \<le> length b" "unat start + unat n \<le> length content"
    and small: "length b < 2 ^ 64" "length content < 2 ^ 63"
  shows "\<exists>rep. readChunk r io b tid start n
                 = Some (Inr (rep, with_section content b (unat start) (unat n)))
               \<and> bytes_completed rep = n"
proof -
  let ?s0 = "\<lparr>bytes_done = 0, current_offset = start, dest = b,
               temp_buffer = scratch_init io, issued = []\<rparr>"
  let ?body = "if use_odirect r then aligned_step r io n else buffered_step r io n"
  have pr: "progresses content b start n ?body"
    using cfg aligned_progresses [OF io _ _ _ _ fits small, of r]
      buffered_progresses [OF io _ fits small, of r]
    by (simp add: well_configured_def)
  have init: "filled content b start n ?s0" by (auto simp: filled_def frame_def)
  from progresses_loop [OF pr init] obtain why s' where
    run: "while_loop ?body n ?s0 = Some (Inr (why, s'))"
    and f: "filled content b start n s'" and d: "bytes_done s' = n" by blast
  from filled_dest [OF f d fits] have dest: "dest s' = with_section content b (unat start) (unat n)" .
  from io have "open_ok io" "memalign_ok io" by (simp_all add: reads_file_def)
  with run dest d show ?thesis
    by (cases "use_odirect r") (simp_all add: readChunk_def aligned_loop_def buffered_loop_def)
qed

lemma read_threads_file:
  "chain a ps e \<Longrightarrow> e \<le> length content \<Longrightarrow> e \<le> length b \<Longrightarrow> length b < 2 ^ 64 \<Longrightarrow>
   length content < 2 ^ 63 \<Longrightarrow> (\<forall>i. reads_file content (w i)) \<Longrightarrow> well_configured r \<Longrightarrow>
     \<exists>reps b'. read_threads r w b ps = Some (Inr (b', reps)) \<and> length b' = length b
        \<and> (\<forall>j. b' ! j = (if a \<le> j \<and> j < e then content ! j else b ! j))"
proof (induction a ps e arbitrary: b rule: chain.induct)
  case (1 a e)
  then show ?case by auto
next
  case (2 a i off len ps e)
  from "2.prems"(1) have off: "unat off = a" and ch: "chain (a + unat len) ps e" by simp_all
  note ae = chain_le [OF ch]
  from ae "2.prems" off have fits: "unat off + unat len \<le> length b" "unat off + unat len \<le> length content"
    by simp_all
  from "2.prems" have io: "reads_file content (w i)" by blast
  from readChunk_file [OF io "2.prems"(7) fits "2.prems"(4,5), of i] obtain rep where
    w: "readChunk r (w i) b i off len = Some (Inr (rep, with_section content b (unat off) (unat len)))"
    by blast
  let ?b1 = "with_section content b (unat off) (unat len)"
  note ws = with_section_nth [OF fits]
  from ws(1) "2.prems" have p: "e \<le> length ?b1" "length ?b1 < 2 ^ 64" by simp_all
  from "2.IH" [OF ch "2.prems"(2) p "2.prems"(5,6,7)] obtain reps b' where
    rest: "read_threads r w ?b1 ps = Some (Inr (b', reps))" and l: "length b' = length ?b1"
    and nth: "\<And>j. b' ! j = (if a + unat len \<le> j \<and> j < e then content ! j else ?b1 ! j)"
    by blast
  have "b' ! j = (if a \<le> j \<and> j < e then content ! j else b ! j)" for j
    using nth [of j] ws(2) [of j] off ae by auto
  with w rest l ws(1) show ?case by simp
qed

lemma read_file:
  assumes sv: "serves_file content sys" and cfg: "well_configured r"
    and nt: "num_threads r \<noteq> 0"
    and fs: "file_size r = of_nat (length content)" and small: "length content < 2 ^ 63"
  shows "\<exists>reps. read sys r = Some (Inr (r\<lparr>buffer := Some content\<rparr>, reps))"
proof -
  let ?L = "length content"
  from small have "?L < 2 ^ LENGTH(64)" by simp
  then have F: "unat (file_size r) = ?L" by (simp add: fs unat_of_nat)
  from sv have al: "alloc_ok sys" and io: "\<forall>i. reads_file content (worker sys i)"
    by (simp_all add: serves_file_def)
  let ?z = "replicate ?L (0 :: byte)"
  from zero_filled_zero [OF nt al] F have zf: "zero_filled sys r = Inr ?z" by simp
  from partitions_sections [OF nt] F obtain ps where
    ps: "partitions r = Inr ps" and ch: "chain 0 ps ?L" by auto
  from small have zs: "length ?z < 2 ^ 64" by simp
  from read_threads_file [OF ch _ _ zs small io cfg] obtain reps b' where
    th: "read_threads r (worker sys) ?z ps = Some (Inr (b', reps))" and l: "length b' = ?L"
    and nth: "\<And>j. b' ! j = (if 0 \<le> j \<and> j < ?L then content ! j else ?z ! j)"
    by auto
  have "b' = content" by (rule nth_equalityI) (simp_all add: l nth)
  with zf ps th show ?thesis by (simp add: read_def)
qed

lemma verify_file:
  assumes sv: "serves_file content sys"
    and fs: "file_size r = of_nat (length content)" and small: "length content < 2 ^ 63"
    and b: "buffer r = Some content"
  shows "verify sys r = Inr True"
proof -
  from small have "length content < 2 ^ LENGTH(64)" by simp
  then have F: "unat (file_size r) = length content" by (simp add: fs unat_of_nat)
  from sv b F fs show ?thesis by (simp add: verify_def serves_file_def Let_def)
qed

text \<open>What the constructor establishes when the rounding of the chunk size does not wrap.\<close>

lemma new_reader_well_configured:
  assumes c: "c \<noteq> 0" "unat c + 4095 < 2 ^ 63"
  shows "case new_reader sys fname t c od of Inl e \<Rightarrow> True | Inr r \<Rightarrow> well_configured r"
proof -
  let ?rcs = "((c + 4095) div 4096) * (4096 :: size_t)"
  from c have "unat c + unat (4095 :: size_t) < 2 ^ LENGTH(64)" by simp
  then have "unat (c + 4095) = unat c + 4095" by (simp add: unat_add_lem [THEN iffD1])
  then have u: "unat ?rcs = ((unat c + 4096 - 1) div 4096) * 4096"
    by (simp add: unat_round_down)
  from c have pos: "0 < unat c" by (simp add: unat_gt_0)
  from round_up_nat(1) [of 4096 "unat c"] have ge: "unat c \<le> unat ?rcs" by (simp add: u)
  with pos have "0 < unat ?rcs" by simp
  then have nz: "?rcs \<noteq> 0" by (rule unat_gt_0 [THEN iffD1])
  have "((unat c + 4096 - 1) div 4096) * 4096 \<le> unat c + 4096 - 1" by simp
  with c u have sm: "unat ?rcs < 2 ^ 63" by simp
  have md: "?rcs mod 4096 = 0" by (rule round_down_mod)
  from c have csm: "unat c < 2 ^ 63" by simp
  show ?thesis
    using nz sm md c(1) csm
    by (simp add: new_reader_def Let_def well_configured_def add.commute [of 4095 c])
qed

text \<open>
  Claim C1. The file does not change and every call succeeds (\<open>reads_file\<close>,
  \<open>serves_file\<close>); the reader is configured as \<open>main\<close> and the constructor leave
  it (\<open>well_configured\<close>); the section lies in the file and in the destination
  buffer; the file is shorter than \<open>2^63\<close> bytes, as every \<open>off_t\<close> size is. Then,
  for every file content, every block size, every chunk size and whatever the scratch
  buffer held, the worker in direct-aligned mode and the worker in buffered mode both
  return, both report the whole section, and both leave the same buffer: the bytes of
  the section replaced by those of the file, every other byte as it was. Consequently
  \<open>read()\<close> with any thread count of at least 1, in either mode, returns with the
  content of the file in its buffer, and \<open>verify()\<close> returns true.
\<close>

theorem aligned_read_equals_buffered_read:
  "(well_configured ra \<and> use_odirect ra \<and> well_configured rb \<and> \<not> use_odirect rb
      \<and> reads_file content ioa \<and> reads_file content iob
      \<and> unat start + unat n \<le> length b \<and> unat start + unat n \<le> length content
      \<and> length b < 2 ^ 64 \<and> length content < 2 ^ 63
    \<longrightarrow> (\<exists>repa repb. readChunk ra ioa b tid start n
                = Some (Inr (repa, with_section content b (unat start) (unat n)))
          \<and> readChunk rb iob b tid start n
                = Some (Inr (repb, with_section content b (unat start) (unat n)))
          \<and> bytes_completed repa = n \<and> bytes_completed repb = n))
   \<and> (well_configured r \<and> num_threads r \<noteq> 0 \<and> serves_file content sys
      \<and> file_size r = of_nat (length content) \<and> length content < 2 ^ 63
    \<longrightarrow> (\<exists>r' reps. read sys r = Some (Inr (r', reps)) \<and> buffer r' = Some content
          \<and> verify sys r' = Inr True))"
proof (intro conjI impI)
  assume h: "well_configured ra \<and> use_odirect ra \<and> well_configured rb \<and> \<not> use_odirect rb
      \<and> reads_file content ioa \<and> reads_file content iob
      \<and> unat start + unat n \<le> length b \<and> unat start + unat n \<le> length content
      \<and> length b < 2 ^ 64 \<and> length content < 2 ^ 63"
  then have fits: "unat start + unat n \<le> length b" "unat start + unat n \<le> length content"
    and small: "length b < 2 ^ 64" "length content < 2 ^ 63" by simp_all
  from h readChunk_file [OF _ _ fits small, of ioa ra tid] obtain repa where
    "readChunk ra ioa b tid start n = Some (Inr (repa, with_section content b (unat start) (unat n)))"
    "bytes_completed repa = n" by blast
  moreover from h readChunk_file [OF _ _ fits small, of iob rb tid] obtain repb where
    "readChunk rb iob b tid start n = Some (Inr (repb, with_section content b (unat start) (unat n)))"
    "bytes_completed repb = n" by blast
  ultimately show "\<exists>repa repb. readChunk ra ioa b tid start n
                = Some (Inr (repa, with_section content b (unat start) (unat n)))
          \<and> readChunk rb iob b tid start n
                = Some (Inr (repb, with_section content b (unat start) (unat n)))
          \<and> bytes_completed repa = n \<and> bytes_completed repb = n" by blast
next
  assume h: "well_configured r \<and> num_threads r \<noteq> 0 \<and> serves_file content sys
      \<and> file_size r = of_nat (length content) \<and> length content < 2 ^ 63"
  then have sv: "serves_file content sys" and fs: "file_size r = of_nat (length content)"
    and small: "length content < 2 ^ 63" by simp_all
  from h read_file [OF sv _ _ fs small] obtain reps where
    run: "read sys r = Some (Inr (r\<lparr>buffer := Some content\<rparr>, reps))" by blast
  have "verify sys (r\<lparr>buffer := Some content\<rparr>) = Inr True"
    by (rule verify_file [OF sv _ small]) (simp_all add: fs)
  with run show "\<exists>r' reps. read sys r = Some (Inr (r', reps)) \<and> buffer r' = Some content
          \<and> verify sys r' = Inr True" by auto
qed

theorem aligned_read_equals_buffered_read_witness:
  "(\<exists>repa repb.
       readChunk \<lparr>filename = ''ten.bin'', file_size = 10, buffer = None, num_threads = 2,
                  read_chunk_size = 4, block_size = 4, use_odirect = True\<rparr>
         ((ideal_io [1, 2, 3, 4, 5, 6, 7, 8, 9, 10])\<lparr>scratch_init := (\<lambda>_. 170)\<rparr>)
         [0, 0, 0, 0, 0, 0, 0, 0, 0, 0] 1 3 5
         = Some (Inr (repa, [0, 0, 0, 4, 5, 6, 7, 8, 0, 0]))
     \<and> readChunk \<lparr>filename = ''ten.bin'', file_size = 10, buffer = None, num_threads = 2,
                  read_chunk_size = 3, block_size = 4, use_odirect = False\<rparr>
         (ideal_io [1, 2, 3, 4, 5, 6, 7, 8, 9, 10])
         [0, 0, 0, 0, 0, 0, 0, 0, 0, 0] 1 3 5
         = Some (Inr (repb, [0, 0, 0, 4, 5, 6, 7, 8, 0, 0]))
     \<and> bytes_completed repa = 5 \<and> bytes_completed repb = 5)
   \<and> (\<exists>r' reps.
       read (ideal_system [1, 2, 3, 4, 5, 6, 7, 8, 9, 10])
         \<lparr>filename = ''ten.bin'', file_size = 10, buffer = None, num_threads = 2,
          read_chunk_size = 4, block_size = 4, use_odirect = True\<rparr> = Some (Inr (r', reps))
     \<and> buffer r' = Some [1, 2, 3, 4, 5, 6, 7, 8, 9, 10]
     \<and> verify (ideal_system [1, 2, 3, 4, 5, 6, 7, 8, 9, 10]) r' = Inr True)"
proof -
  let ?c = "[1, 2, 3, 4, 5, 6, 7, 8, 9, 10] :: byte list"
  let ?ra = "\<lparr>filename = ''ten.bin'', file_size = 10, buffer = None, num_threads = 2,
                  read_chunk_size = 4, block_size = 4, use_odirect = True\<rparr>"
  let ?rb = "\<lparr>filename = ''ten.bin'', file_size = 10, buffer = None, num_threads = 2,
                  read_chunk_size = 3, block_size = 4, use_odirect = False\<rparr>"
  let ?ioa = "(ideal_io ?c)\<lparr>scratch_init := (\<lambda>_. 170)\<rparr>"
  let ?b = "[0, 0, 0, 0, 0, 0, 0, 0, 0, 0] :: byte list"
  have workers: "well_configured ?ra \<and> use_odirect ?ra \<and> well_configured ?rb \<and> \<not> use_odirect ?rb
      \<and> reads_file ?c ?ioa \<and> reads_file ?c (ideal_io ?c)
      \<and> unat (3 :: size_t) + unat (5 :: size_t) \<le> length ?b
      \<and> unat (3 :: size_t) + unat (5 :: size_t) \<le> length ?c
      \<and> length ?b < 2 ^ 64 \<and> length ?c < 2 ^ 63"
    by (simp add: well_configured_def reads_file_def ideal_io_def)
  have engine: "well_configured ?ra \<and> num_threads ?ra \<noteq> 0 \<and> serves_file ?c (ideal_system ?c)
      \<and> file_size ?ra = of_nat (length ?c) \<and> length ?c < 2 ^ 63"
    by (simp add: well_configured_def serves_file_def reads_file_def ideal_system_def ideal_io_def)
  have sect: "with_section ?c ?b (unat (3 :: size_t)) (unat (5 :: size_t)) = [0, 0, 0, 4, 5, 6, 7, 8, 0, 0]"
    by (simp add: with_section_def)
  from aligned_read_equals_buffered_read
         [of ?ra ?rb ?c ?ioa "ideal_io ?c" 3 5 ?b 1 ?ra "ideal_system ?c"]
       workers engine
  show ?thesis by (simp only: sect simp_thms)
qed

section \<open>The rounding of the chunk size\<close>

text \<open>
  The part of claim C7 that holds on the code: in direct-aligned mode the constructor
  always leaves a chunk size that is a multiple of the block size (also when the
  rounding wraps), and for such a chunk size no request of the aligned adapter is
  larger than \<open>read_chunk_size\<close>, the size of the scratch buffer.
\<close>

lemma round_up_within:
  assumes b: "b \<noteq> 0" and m: "c mod b = 0" and le: "x \<le> (c :: size_t)"
  shows "((x + b - 1) div b) * b \<le> c"
proof -
  let ?B = "unat b" and ?C = "unat c" and ?X = "unat x"
  from b have B: "0 < ?B" by (simp add: unat_gt_0)
  from m have "unat (c mod b) = 0" by simp
  then have CB: "?C mod ?B = 0" by (simp add: unat_mod)
  from le have XC: "?X \<le> ?C" by (simp only: word_le_nat_alt)
  from b have "1 \<le> b" by (simp add: word_le_nat_alt unat_gt_0 Suc_le_eq)
  then have "unat (b - 1) = ?B - unat (1 :: size_t)" by (rule unat_sub)
  then have ub: "unat (b - 1) = ?B - 1" by simp
  have e: "x + b - 1 = x + (b - 1)" by simp
  have u: "unat ((x + b - 1) div b * b) = (unat (x + (b - 1)) div ?B) * ?B"
    by (simp only: unat_round_down e)
  have pl: "unat (x + (b - 1)) =
      (if ?X + unat (b - 1) < 2 ^ LENGTH(64) then ?X + unat (b - 1)
       else ?X + unat (b - 1) - 2 ^ LENGTH(64))"
    by (rule unat_plus_if')
  have "(unat (x + (b - 1)) div ?B) * ?B \<le> ?C"
  proof (cases "?X + unat (b - 1) < 2 ^ LENGTH(64)")
    case True
    with pl have "unat (x + (b - 1)) = ?X + unat (b - 1)" by (simp only: if_True)
    with ub B have "unat (x + (b - 1)) = ?X + ?B - 1" by simp
    with round_up_nat(2) [OF B CB XC] show ?thesis by simp
  next
    case False
    with pl have "unat (x + (b - 1)) = ?X + unat (b - 1) - 2 ^ LENGTH(64)" by (simp only: if_False)
    moreover have "?X < 2 ^ LENGTH(64)" by (rule unsigned_less)
    ultimately have "unat (x + (b - 1)) < ?B" using ub B by simp
    then show ?thesis by simp
  qed
  with u show ?thesis by (simp only: word_le_nat_alt)
qed

lemma aligned_step_within_chunk:
  assumes "aligned_step r io n s = Inr res" "read_chunk_size r mod block_size r = 0"
    "within_chunk r (issued s)"
  shows "within_chunk r (issued (state_of res))"
proof -
  from assms(1) have bs: "block_size r \<noteq> 0" by (auto simp: aligned_step_def)
  have key: "((min (read_chunk_size r) x + block_size r - 1) div block_size r) * block_size r
               \<le> read_chunk_size r" for x
    by (rule round_up_within [OF bs assms(2)]) simp
  from assms(1,3) show ?thesis
    by (auto simp: aligned_step_def Let_def within_chunk_def key
             split: if_splits prod.splits sum.splits)
qed

lemma aligned_worker_within_chunk:
  assumes run: "readChunk r io b tid start n = Some (Inr (rep, b'))" and od: "use_odirect r"
    and m: "read_chunk_size r mod block_size r = 0"
  shows "within_chunk r (reads rep)"
proof (cases "open_ok io \<and> memalign_ok io")
  case False
  with run od show ?thesis by (auto simp: readChunk_def within_chunk_def split: if_splits)
next
  case True
  let ?s0 = "\<lparr>bytes_done = 0, current_offset = start, dest = b,
               temp_buffer = scratch_init io, issued = []\<rparr>"
  from run od True obtain why s' where
    loop: "while_loop (aligned_step r io n) n ?s0 = Some (Inr (why, s'))"
    and rep: "reads rep = issued s'"
    by (auto simp: readChunk_def aligned_loop_def split: option.splits sum.splits)
  have "within_chunk r (issued s')"
    by (rule while_loop_invariant [OF loop, where I = "\<lambda>s. within_chunk r (issued s)"])
       (simp_all add: within_chunk_def [of r "[]"] aligned_step_within_chunk m)
  with rep show ?thesis by simp
qed

lemma new_reader_multiple:
  "case new_reader sys fname t c od of
     Inl e \<Rightarrow> True
   | Inr r \<Rightarrow> block_size r = 4096 \<and> (use_odirect r \<longrightarrow> read_chunk_size r mod block_size r = 0)"
  by (simp add: new_reader_def Let_def round_down_mod)

text \<open>A loop whose body always continues, from states in which the loop test holds, never returns.\<close>

lemma while_loop_diverges:
  assumes init: "I s"
    and step: "\<And>s. I s \<Longrightarrow> bytes_done s < n \<and> (\<exists>t. body s = Inr (Continue t) \<and> I t)"
  shows "while_loop body n s = None"
proof (rule ccontr)
  assume "while_loop body n s \<noteq> None"
  then obtain y where run: "while_loop body n s = Some y" by blast
  have "carried I body n" unfolding carried_def using step by fastforce
  with while_loop_last [OF run, of I] init have "last_iteration I body n y" by blast
  then show False unfolding last_iteration_def using step by fastforce
qed

lemma zero_chunk_worker_hangs:
  "readChunk \<lparr>filename = ''three.bin'', file_size = 3, buffer = None, num_threads = 1,
              read_chunk_size = 0, block_size = 4096, use_odirect = True\<rparr>
     (ideal_io [1, 2, 3]) [0, 0, 0] 0 0 3 = None"
proof -
  let ?r = "\<lparr>filename = ''three.bin'', file_size = 3, buffer = None, num_threads = 1,
              read_chunk_size = 0, block_size = 4096, use_odirect = True\<rparr>"
  let ?io = "ideal_io [1, 2, 3]"
  let ?I = "\<lambda>s. bytes_done s = 0 \<and> current_offset s = 0 \<and> dest s = [0, 0, 0 :: byte]"
  have "while_loop (aligned_step ?r ?io 3) 3
          \<lparr>bytes_done = 0, current_offset = 0, dest = [0, 0, 0],
           temp_buffer = scratch_init ?io, issued = []\<rparr> = None"
  proof (rule while_loop_diverges [where I = ?I])
    show "?I \<lparr>bytes_done = 0, current_offset = 0, dest = [0, 0, 0],
               temp_buffer = scratch_init ?io, issued = []\<rparr>" by simp
  next
    fix s :: loop_state
    assume "?I s"
    then show "bytes_done s < 3 \<and> (\<exists>t. aligned_step ?r ?io 3 s = Inr (Continue t) \<and> ?I t)"
      by (simp add: aligned_step_def ideal_io_def sys_read_def store_def Let_def)
  qed
  then show ?thesis by (simp add: readChunk_def aligned_loop_def ideal_io_def)
qed

text \<open>
  Claim C7 fails on the code. With the command line
  \<open>reader three.bin 1 18014398509481983 1\<close> the chunk size that \<open>main\<close> passes is
  \<open>18014398509481983 * 1024 = 2^64 - 1024\<close>, which is not a multiple of 4096. In
  the constructor \<open>read_chunk_size + block_size - 1\<close> wraps to 3071, and the chunk
  size becomes \<open>(3071 / 4096) * 4096 = 0\<close> instead of the next multiple of 4096.
  Every request of the worker then has length 0, the loop makes no progress, and
  \<open>main\<close> never returns.
\<close>

theorem chunk_size_rounding_wraps_to_zero:
  "main_config 8 \<lparr>arg_filename = Some ''three.bin'', arg_num_threads = Some 1,
                   arg_chunk_kb = Some 18014398509481983, arg_odirect = Some 1\<rparr>
     = (1, 18446744073709550592, True)
   \<and> new_reader (ideal_system [1, 2, 3]) ''three.bin'' 1 18446744073709550592 True
     = Inr \<lparr>filename = ''three.bin'', file_size = 3, buffer = None, num_threads = 1,
            read_chunk_size = 0, block_size = 4096, use_odirect = True\<rparr>
   \<and> main (ideal_system [1, 2, 3]) 8
        \<lparr>arg_filename = Some ''three.bin'', arg_num_threads = Some 1,
         arg_chunk_kb = Some 18014398509481983, arg_odirect = Some 1\<rparr> = None"
proof -
  have rep: "replicate 3 (0 :: byte) = [0, 0, 0]" by (simp add: numeral_eq_Suc)
  show ?thesis
    using zero_chunk_worker_hangs
    by (simp add: rep main_def main_config_def construct_and_read_def new_reader_def getFileSize_def
          ideal_system_def read_def zero_filled_def partitions_def spawn_loop.simps store_def upt_rec)
qed

section \<open>The buffered worker and its report\<close>







section \<open>Thread count zero\<close>















end
